theory Spec2Isabelle
  imports Main "HOL-Library.Extended_Nat"
begin

section \<open>Python values, errors and results\<close>

text \<open>
  The exceptions the modelled code can raise: comparing \<open>None\<close> with an integer
  (\<open>TypeError\<close>), indexing a list out of range (\<open>IndexError\<close>) and looking up a
  missing dictionary key (\<open>KeyError\<close>).
\<close>

datatype error = TypeError | IndexError | KeyError

text \<open>
  A call either returns a value (\<open>Some (Inr v)\<close>), raises (\<open>Some (Inl e)\<close>) or,
  for the one unbounded \<open>while\<close> loop of the code, does not return (\<open>None\<close>).
\<close>

type_synonym 'a result = "(error + 'a) option"

text \<open>
  Python list indexing \<open>xs[i]\<close>: a negative index counts from the end, anything else out
  of range raises \<open>IndexError\<close> (here \<open>None\<close>).
\<close>

definition py_index :: "nat \<Rightarrow> int \<Rightarrow> nat option" where
  "py_index n i =
     (if 0 \<le> i \<and> i < int n then Some (nat i)
      else if - int n \<le> i \<and> i < 0 then Some (nat (int n + i))
      else None)"

definition py_get :: "'a list \<Rightarrow> int \<Rightarrow> 'a option" where
  "py_get xs i = (case py_index (length xs) i of None \<Rightarrow> None | Some k \<Rightarrow> Some (xs ! k))"

definition py_set :: "'a list \<Rightarrow> int \<Rightarrow> 'a \<Rightarrow> 'a list option" where
  "py_set xs i v = (case py_index (length xs) i of None \<Rightarrow> None | Some k \<Rightarrow> Some (xs[k := v]))"

text \<open>
  Python's \<open>min(xs, key=f)\<close> on a non-empty sequence \<open>x, xs\<close>: the first element, in
  iteration order, whose key is minimal (a later element replaces the best one only when
  its key is strictly smaller).
\<close>

fun py_min_key :: "('a \<Rightarrow> 'k::linorder) \<Rightarrow> 'a \<Rightarrow> 'a list \<Rightarrow> 'a" where
  "py_min_key key best [] = best"
| "py_min_key key best (x # xs) = py_min_key key (if key x < key best then x else best) xs"


section \<open>The navigation graph (models/nav\_graph.py)\<close>

text \<open>
  Floats (coordinates, progress, battery) are modelled as rationals: exact arithmetic, no
  rounding. The fields \<open>x\<close>, \<open>y\<close> of a vertex are named \<open>vx\<close>, \<open>vy\<close>.
\<close>

record vertex =
  vx :: rat
  vy :: rat
  name :: string
  is_charger :: bool

record lane =
  start_idx :: int
  end_idx :: int
  speed_limit :: int

record nav_graph =
  vertices :: "vertex list"
  lanes :: "lane list"

fun adjacent_in :: "lane list \<Rightarrow> int \<Rightarrow> int list" where
  "adjacent_in [] vertex_idx = []"
| "adjacent_in (l # ls) vertex_idx =
     (if start_idx l = vertex_idx then end_idx l # adjacent_in ls vertex_idx
      else if end_idx l = vertex_idx then start_idx l # adjacent_in ls vertex_idx
      else adjacent_in ls vertex_idx)"

definition get_adjacent_vertices :: "nav_graph \<Rightarrow> int \<Rightarrow> int list" where
  "get_adjacent_vertices g vertex_idx = adjacent_in (lanes g) vertex_idx"

text \<open>
  The \<open>for neighbor in ...\<close> loop of \<open>find_shortest_path\<close>. \<open>distances\<close> holds
  \<open>float('inf')\<close> or a count of hops, an \<open>enat\<close>; \<open>previous\<close> holds a vertex index or
  \<open>-1\<close>. \<open>current\<close> and every member of \<open>unvisited\<close> come from
  \<open>range(len(vertices))\<close>, so the list accesses are by a natural number in range.
\<close>

fun relax_neighbors ::
  "int \<Rightarrow> int list \<Rightarrow> int list \<Rightarrow> enat list \<times> int list \<Rightarrow> enat list \<times> int list" where
  "relax_neighbors current unvisited [] (distances, previous) = (distances, previous)"
| "relax_neighbors current unvisited (neighbor # rest) (distances, previous) =
     (if neighbor \<in> set unvisited then
        (let new_dist = distances ! nat current + 1 in
         if new_dist < distances ! nat neighbor
         then relax_neighbors current unvisited rest
                (distances[nat neighbor := new_dist], previous[nat neighbor := current])
         else relax_neighbors current unvisited rest (distances, previous))
      else relax_neighbors current unvisited rest (distances, previous))"

lemma py_min_key_mem: "py_min_key key best xs \<in> set (best # xs)"
  by (induction xs arbitrary: best) auto

text \<open>
  The \<open>while unvisited\<close> loop. The set \<open>unvisited\<close> is kept as the list of its members
  in iteration order; for a set of small non-negative integers built by
  \<open>set(range(n))\<close> that order is ascending, and removing a member keeps it.
\<close>

function search_loop ::
  "nav_graph \<Rightarrow> int \<Rightarrow> enat list \<Rightarrow> int list \<Rightarrow> int list \<Rightarrow> enat list \<times> int list" where
  "search_loop g end_i distances previous [] = (distances, previous)"
| "search_loop g end_i distances previous (u # us) =
     (let current = py_min_key (\<lambda>x. distances ! nat x) u us;
          unvisited = remove1 current (u # us)
      in if current = end_i then (distances, previous)
         else (case relax_neighbors current unvisited (get_adjacent_vertices g current)
                      (distances, previous) of
                 (distances', previous') \<Rightarrow> search_loop g end_i distances' previous' unvisited))"
  by pat_completeness auto
termination
proof (relation "measure (\<lambda>(g, end_i, distances, previous, unvisited). length unvisited)")
  show "wf (measure (\<lambda>(g, end_i, distances, previous, unvisited). length unvisited))"
    by simp
next
  fix g :: nav_graph and end_i :: int and distances :: "enat list" and previous :: "int list"
    and u :: int and us :: "int list" and x xa xb y
  assume "x = py_min_key (\<lambda>x. distances ! nat x) u us" and "xa = remove1 x (u # us)"
  moreover have "py_min_key (\<lambda>x. distances ! nat x) u us \<in> set (u # us)"
    by (rule py_min_key_mem)
  ultimately have "length xa < length (u # us)"
    by (simp add: length_remove1 del: remove1.simps)
  then show "((g, end_i, xb, y, xa), (g, end_i, distances, previous, u # us))
      \<in> measure (\<lambda>(g, end_i, distances, previous, unvisited). length unvisited)"
    by simp
qed

text \<open>
  The path reconstruction \<open>while previous[current] != -1\<close>: nothing in the loop bounds it,
  so it is a partial function; \<open>previous[current]\<close> raises when \<open>current\<close> is out of range.
\<close>

partial_function (option) reconstruct :: "int list \<Rightarrow> int \<Rightarrow> int list \<Rightarrow> int list result" where
  "reconstruct previous current path =
     (case py_get previous current of
        None \<Rightarrow> Some (Inl IndexError)
      | Some p \<Rightarrow>
          if p \<noteq> - 1 then reconstruct previous p (path @ [current])
          else Some (Inr path))"

declare reconstruct.simps [code]

definition find_shortest_path :: "nav_graph \<Rightarrow> int \<Rightarrow> int \<Rightarrow> int list result" where
  "find_shortest_path g start_i end_i =
     (if start_i = end_i then Some (Inr [start_i])
      else
        let n = length (vertices g) in
        case py_set (replicate n (\<infinity>::enat)) start_i 0 of
          None \<Rightarrow> Some (Inl IndexError)
        | Some distances0 \<Rightarrow>
            (case search_loop g end_i distances0 (replicate n (- 1)) (map int [0..<n]) of
               (distances, previous) \<Rightarrow>
                 (case reconstruct previous end_i [] of
                    None \<Rightarrow> None
                  | Some (Inl e) \<Rightarrow> Some (Inl e)
                  | Some (Inr path) \<Rightarrow>
                      (case py_get distances end_i of
                         None \<Rightarrow> Some (Inl IndexError)
                       | Some d \<Rightarrow> Some (Inr (if d \<noteq> \<infinity> then rev (path @ [start_i]) else []))))))"

definition rbind :: "'a result \<Rightarrow> ('a \<Rightarrow> 'b result) \<Rightarrow> 'b result" where
  "rbind m f = (case m of None \<Rightarrow> None | Some (Inl e) \<Rightarrow> Some (Inl e) | Some (Inr v) \<Rightarrow> f v)"


section \<open>The robot (models/robot.py)\<close>

datatype robot_status = IDLE | MOVING | WAITING | CHARGING | TASK_COMPLETE

text \<open>The log lines a robot and the fleet manager format, as values.\<close>

datatype event =
    AssignedTask int int
  | StartedCharging int int
  | CompletedTask int int
  | LowBatteryReroute int int
  | FinishedCharging int
  | WaitingAtLane int "int \<times> int"
  | SpawnedRobot int int string

text \<open>
  The fields \<open>id\<close>, \<open>x\<close>, \<open>y\<close> are named \<open>rid\<close>, \<open>rx\<close>, \<open>ry\<close>. The colour, a
  function of the id used by the display only, is left out.
\<close>

record robot =
  rid :: int
  rx :: rat
  ry :: rat
  status :: robot_status
  current_vertex_idx :: "int option"
  destination_vertex_idx :: "int option"
  path :: "int list"
  progress :: rat
  current_lane :: "(int \<times> int) option"
  log :: "event list"
  battery :: rat
  speed :: rat

definition new_robot :: "int \<Rightarrow> rat \<Rightarrow> rat \<Rightarrow> robot" where
  "new_robot robot_id px py =
     \<lparr>rid = robot_id, rx = px, ry = py, status = IDLE, current_vertex_idx = None,
      destination_vertex_idx = None, path = [], progress = 0, current_lane = None,
      log = [], battery = 100, speed = 1 / 20\<rparr>"

definition connects :: "lane \<Rightarrow> int \<Rightarrow> int \<Rightarrow> bool" where
  "connects l s e =
     ((start_idx l = s \<and> end_idx l = e) \<or> (end_idx l = s \<and> start_idx l = e))"

text \<open>\<open>Robot._move_to_next_vertex\<close>.\<close>

definition move_to_next_vertex :: "nav_graph \<Rightarrow> robot \<Rightarrow> robot" where
  "move_to_next_vertex g r =
     (case path r of
        s # e # rest \<Rightarrow>
          (let r1 = (if list_ex (\<lambda>l. connects l s e) (lanes g)
                     then r\<lparr>current_lane := Some (s, e)\<rparr> else r)
           in r1\<lparr>progress := 0, current_vertex_idx := Some s, path := e # rest\<rparr>)
      | _ \<Rightarrow> r\<lparr>status := TASK_COMPLETE, destination_vertex_idx := None\<rparr>)"

text \<open>\<open>Robot.assign_task\<close>: the returned flag and the robot as the call leaves it.\<close>

definition assign_task :: "robot \<Rightarrow> int \<Rightarrow> nav_graph \<Rightarrow> (bool \<times> robot) result" where
  "assign_task r destination_idx g =
     (if status r = CHARGING then Some (Inr (False, r))
      else case current_vertex_idx r of
        None \<Rightarrow> Some (Inr (False, r))
      | Some c \<Rightarrow>
          rbind (find_shortest_path g c destination_idx) (\<lambda>p.
            let r1 = r\<lparr>destination_vertex_idx := Some destination_idx, path := p\<rparr> in
            if p = [] then Some (Inr (False, r1))
            else
              let r2 = move_to_next_vertex g (r1\<lparr>status := MOVING\<rparr>) in
              Some (Inr (True, r2\<lparr>log := log r2 @ [AssignedTask (rid r2) destination_idx]\<rparr>))))"

text \<open>
  \<open>Robot._distance_to_vertex\<close> is the square root of the value below; it is only used as
  the key of a \<open>min\<close>, and the square root keeps the order, so the key is modelled by the
  squared distance.
\<close>

definition distance_to_vertex_sq :: "robot \<Rightarrow> nav_graph \<Rightarrow> int \<Rightarrow> rat" where
  "distance_to_vertex_sq r g vertex_idx =
     (let v = vertices g ! nat vertex_idx
      in (rx r - vx v) * (rx r - vx v) + (ry r - vy v) * (ry r - vy v))"

definition chargers_of :: "nav_graph \<Rightarrow> int list" where
  "chargers_of g =
     map int (filter (\<lambda>i. is_charger (vertices g ! i)) [0..<length (vertices g)])"

text \<open>The battery consumption at the end of \<open>Robot.update_position\<close>.\<close>

definition consume_battery :: "nav_graph \<Rightarrow> robot \<Rightarrow> robot result" where
  "consume_battery g r =
     (if status r = MOVING then
        (let r1 = r\<lparr>battery := max 0 (battery r - 1 / 10)\<rparr> in
         if battery r1 < 20 then
           (case chargers_of g of
              [] \<Rightarrow> Some (Inr r1)
            | c # cs \<Rightarrow>
                (let nearest = py_min_key (distance_to_vertex_sq r1 g) c cs in
                 rbind (assign_task r1 nearest g) (\<lambda>(ok, r2).
                   Some (Inr (r2\<lparr>log := log r2 @ [LowBatteryReroute (rid r2) nearest]\<rparr>)))))
         else Some (Inr r1))
      else Some (Inr r))"

text \<open>\<open>Robot.update_position\<close>.\<close>

definition update_position :: "nav_graph \<Rightarrow> robot \<Rightarrow> robot result" where
  "update_position g r =
     (if status r \<noteq> MOVING then Some (Inr r)
      else case current_lane r of
        None \<Rightarrow> Some (Inr (move_to_next_vertex g r))
      | Some (s, e) \<Rightarrow>
          (case py_get (vertices g) s of
             None \<Rightarrow> Some (Inl IndexError)
           | Some start_vertex \<Rightarrow>
               (case py_get (vertices g) e of
                  None \<Rightarrow> Some (Inl IndexError)
                | Some end_vertex \<Rightarrow>
                    (let p = progress r + speed r in
                     consume_battery g
                       (if p \<ge> 1 then
                          (let r1 = r\<lparr>progress := 0, current_vertex_idx := Some e,
                                       rx := vx end_vertex, ry := vy end_vertex\<rparr> in
                           if is_charger end_vertex \<and> battery r1 < 50
                           then r1\<lparr>status := CHARGING,
                                   log := log r1 @ [StartedCharging (rid r1) e]\<rparr>
                           else if path r1 = []
                           then r1\<lparr>status := TASK_COMPLETE,
                                   log := log r1 @ [CompletedTask (rid r1) e]\<rparr>
                           else move_to_next_vertex g r1)
                        else
                          r\<lparr>progress := p,
                            rx := vx start_vertex + (vx end_vertex - vx start_vertex) * p,
                            ry := vy start_vertex + (vy end_vertex - vy start_vertex) * p\<rparr>)))))"

text \<open>\<open>Robot.update_charging\<close>.\<close>

definition update_charging :: "robot \<Rightarrow> robot" where
  "update_charging r =
     (if status r = CHARGING then
        (let r1 = r\<lparr>battery := min 100 (battery r + 1)\<rparr> in
         if battery r1 \<ge> 95
         then r1\<lparr>status := IDLE, log := log r1 @ [FinishedCharging (rid r1)]\<rparr>
         else r1)
      else r)"


section \<open>The fleet manager (controllers/fleet\_manager.py)\<close>

text \<open>
  The manager's tables hold references to robot objects; a robot object is identified by
  its position in the list \<open>robots\<close>, to which robots are only ever appended. \<open>logged\<close>
  collects what the manager hands to its logger. The navigation graph, an object the
  manager only reads and that a level change replaces in place, is a parameter of every
  operation.
\<close>

record fleet =
  robots :: "robot list"
  robot_id_counter :: int
  occupied_vertices :: "int \<rightharpoonup> nat list"
  occupied_lanes :: "(int \<times> int) \<rightharpoonup> nat"
  logged :: "event list"

definition init_fleet :: fleet where
  "init_fleet =
     \<lparr>robots = [], robot_id_counter = 1, occupied_vertices = Map.empty,
      occupied_lanes = Map.empty, logged = []\<rparr>"

definition reset_for_new_level :: "fleet \<Rightarrow> fleet" where
  "reset_for_new_level f =
     f\<lparr>robots := [], robot_id_counter := 1, occupied_vertices := Map.empty,
       occupied_lanes := Map.empty\<rparr>"

definition is_vertex_occupied :: "nav_graph \<Rightarrow> fleet \<Rightarrow> int \<Rightarrow> error + bool" where
  "is_vertex_occupied g f vertex_idx =
     (case occupied_vertices f vertex_idx of
        None \<Rightarrow> Inr False
      | Some occupants \<Rightarrow>
          (case py_get (vertices g) vertex_idx of
             None \<Rightarrow> Inl IndexError
           | Some v \<Rightarrow> if is_charger v then Inr False else Inr (length occupants > 0)))"

definition spawn_robot :: "nav_graph \<Rightarrow> fleet \<Rightarrow> int \<Rightarrow> error + bool \<times> fleet" where
  "spawn_robot g f vertex_idx =
     (if vertex_idx < 0 \<or> vertex_idx \<ge> int (length (vertices g)) then Inr (False, f)
      else case is_vertex_occupied g f vertex_idx of
        Inl e \<Rightarrow> Inl e
      | Inr True \<Rightarrow> Inr (False, f)
      | Inr False \<Rightarrow>
          (let v = vertices g ! nat vertex_idx;
               r = (new_robot (robot_id_counter f) (vx v) (vy v))
                     \<lparr>current_vertex_idx := Some vertex_idx\<rparr>;
               occupants = (case occupied_vertices f vertex_idx of
                              None \<Rightarrow> [] | Some l \<Rightarrow> l)
           in Inr (True,
                f\<lparr>robots := robots f @ [r],
                  robot_id_counter := robot_id_counter f + 1,
                  occupied_vertices :=
                    (occupied_vertices f)(vertex_idx \<mapsto> occupants @ [length (robots f)]),
                  logged := logged f @ [SpawnedRobot (rid r) vertex_idx (name v)]\<rparr>)))"

text \<open>\<open>next((r for r in self.robots if r.id == robot_id), None)\<close>, as a position.\<close>

fun find_robot :: "int \<Rightarrow> robot list \<Rightarrow> nat option" where
  "find_robot robot_id [] = None"
| "find_robot robot_id (r # rs) =
     (if rid r = robot_id then Some 0 else map_option Suc (find_robot robot_id rs))"

text \<open>\<open>FleetManager.assign_task\<close>.\<close>

definition fleet_assign_task :: "nav_graph \<Rightarrow> fleet \<Rightarrow> int \<Rightarrow> int \<Rightarrow> (bool \<times> fleet) result" where
  "fleet_assign_task g f robot_id destination_idx =
     (case find_robot robot_id (robots f) of
        None \<Rightarrow> Some (Inr (False, f))
      | Some i \<Rightarrow>
          (if current_vertex_idx (robots f ! i) = None then Some (Inr (False, f))
           else if destination_idx < 0 \<or> destination_idx \<ge> int (length (vertices g))
           then Some (Inr (False, f))
           else
             (let dest_vertex = vertices g ! nat destination_idx in
              case (if \<not> is_charger dest_vertex then is_vertex_occupied g f destination_idx
                    else Inr False) of
                Inl e \<Rightarrow> Some (Inl e)
              | Inr True \<Rightarrow> Some (Inr (False, f))
              | Inr False \<Rightarrow>
                  rbind (assign_task (robots f ! i) destination_idx g) (\<lambda>(success, r).
                    Some (Inr (success,
                      f\<lparr>robots := (robots f)[i := (if success then r\<lparr>status := MOVING\<rparr> else r)]\<rparr>))))))"

definition get_lane_key :: "int \<times> int \<Rightarrow> int \<times> int" where
  "get_lane_key l = (min (fst l) (snd l), max (fst l) (snd l))"

text \<open>
  The first loop of \<open>FleetManager.update\<close>, over the robots from position \<open>i\<close> on.
  \<open>robot.current_vertex_idx >= len(...)\<close> raises \<open>TypeError\<close> when the index is \<open>None\<close>.
\<close>

fun update_robots ::
  "nav_graph \<Rightarrow> nat \<Rightarrow> robot list \<Rightarrow> (int \<rightharpoonup> nat list) \<Rightarrow> (robot list \<times> (int \<rightharpoonup> nat list)) result" where
  "update_robots g i [] occ = Some (Inr ([], occ))"
| "update_robots g i (robot # rest) occ =
     (case current_vertex_idx robot of
        None \<Rightarrow> Some (Inl TypeError)
      | Some c \<Rightarrow>
          if c \<ge> int (length (vertices g)) then
            rbind (update_robots g (Suc i) rest occ) (\<lambda>(rest', occ').
              Some (Inr (robot\<lparr>current_vertex_idx := None, status := IDLE\<rparr> # rest', occ')))
          else
            rbind (if status robot = CHARGING then Some (Inr (update_charging robot))
                   else if status robot = MOVING \<or> status robot = WAITING
                   then update_position g robot
                   else Some (Inr robot)) (\<lambda>robot'.
              case current_vertex_idx robot' of
                None \<Rightarrow>
                  rbind (update_robots g (Suc i) rest occ) (\<lambda>(rest', occ').
                    Some (Inr (robot' # rest', occ')))
              | Some c' \<Rightarrow>
                  (case occ c' of
                     None \<Rightarrow> Some (Inl KeyError)
                   | Some occupants \<Rightarrow>
                       rbind (update_robots g (Suc i) rest (occ(c' \<mapsto> occupants @ [i])))
                         (\<lambda>(rest', occ'). Some (Inr (robot' # rest', occ'))))))"

text \<open>The second loop of \<open>FleetManager.update\<close>: the lane reservations.\<close>

fun reserve_lanes ::
  "nat \<Rightarrow> robot list \<Rightarrow> ((int \<times> int) \<rightharpoonup> nat) \<Rightarrow> robot list \<times> ((int \<times> int) \<rightharpoonup> nat)" where
  "reserve_lanes i [] tbl = ([], tbl)"
| "reserve_lanes i (robot # rest) tbl =
     (case (if status robot = MOVING then current_lane robot else None) of
        Some l \<Rightarrow>
          (let lane_key = get_lane_key l in
           if tbl lane_key \<noteq> None \<and> tbl lane_key \<noteq> Some i then
             (case reserve_lanes (Suc i) rest tbl of
                (rest', tbl') \<Rightarrow>
                  (robot\<lparr>status := WAITING,
                         log := log robot @ [WaitingAtLane (rid robot) lane_key]\<rparr> # rest', tbl'))
           else
             (case reserve_lanes (Suc i) rest (tbl(lane_key \<mapsto> i)) of
                (rest', tbl') \<Rightarrow> (robot # rest', tbl')))
      | None \<Rightarrow>
          (case reserve_lanes (Suc i) rest tbl of (rest', tbl') \<Rightarrow> (robot # rest', tbl')))"

text \<open>\<open>FleetManager.update\<close>, the tick.\<close>

definition update :: "nav_graph \<Rightarrow> fleet \<Rightarrow> fleet result" where
  "update g f =
     rbind (update_robots g 0 (robots f)
              (\<lambda>idx. if 0 \<le> idx \<and> idx < int (length (vertices g)) then Some [] else None))
       (\<lambda>(rs, occ).
          case reserve_lanes 0 rs Map.empty of
            (rs', tbl) \<Rightarrow>
              Some (Inr (f\<lparr>robots := map (\<lambda>r. r\<lparr>log := []\<rparr>) rs',
                          occupied_vertices := occ,
                          occupied_lanes := tbl,
                          logged := logged f @ concat (map log rs')\<rparr>)))"

text \<open>\<open>n\<close> ticks in a row, as the host's periodic loop runs them.\<close>

fun ticks :: "nat \<Rightarrow> nav_graph \<Rightarrow> fleet \<Rightarrow> fleet result" where
  "ticks 0 g f = Some (Inr f)"
| "ticks (Suc n) g f = rbind (update g f) (ticks n g)"


section \<open>The traffic manager (controllers/traffic\_manager.py)\<close>

text \<open>
  Robots are compared by object identity; \<open>'r\<close> is the type of robot identities.
\<close>

record 'r traffic =
  reservations :: "(int \<times> int) \<rightharpoonup> 'r"
  intersection_queues :: "int \<rightharpoonup> 'r list"

definition lane_key_of :: "int \<Rightarrow> int \<Rightarrow> int \<times> int" where
  "lane_key_of current next_vertex =
     (if current < next_vertex then (current, next_vertex) else (next_vertex, current))"

text \<open>
  The checking loop of \<open>request_path\<close> over the steps \<open>path[i], path[i+1]\<close>: \<open>True\<close>
  when no step returns \<open>False\<close>. The step is not the last one (\<open>i < len(path) - 2\<close>)
  exactly when another vertex follows \<open>next_vertex\<close>.
\<close>

fun path_free :: "'r traffic \<Rightarrow> 'r \<Rightarrow> int list \<Rightarrow> bool" where
  "path_free t robot (current # next_vertex # rest) =
     (let lane_key = lane_key_of current next_vertex in
      if reservations t lane_key \<noteq> None \<and> reservations t lane_key \<noteq> Some robot then False
      else if rest \<noteq> [] \<and>
              (case intersection_queues t next_vertex of None \<Rightarrow> False | Some q \<Rightarrow> q \<noteq> [])
      then False
      else path_free t robot (next_vertex # rest))"
| "path_free t robot _ = True"

text \<open>The reserving loop of \<open>request_path\<close>.\<close>

fun reserve_path :: "'r traffic \<Rightarrow> 'r \<Rightarrow> int list \<Rightarrow> 'r traffic" where
  "reserve_path t robot (current # next_vertex # rest) =
     (let t1 = t\<lparr>reservations := (reservations t)(lane_key_of current next_vertex \<mapsto> robot)\<rparr>;
          t2 = (if rest \<noteq> [] then
                  t1\<lparr>intersection_queues :=
                       (intersection_queues t1)(next_vertex \<mapsto>
                          (case intersection_queues t1 next_vertex of
                             None \<Rightarrow> [] | Some q \<Rightarrow> q) @ [robot])\<rparr>
                else t1)
      in reserve_path t2 robot (next_vertex # rest))"
| "reserve_path t robot _ = t"

definition request_path :: "'r traffic \<Rightarrow> 'r \<Rightarrow> int list \<Rightarrow> bool \<times> 'r traffic" where
  "request_path t robot p =
     (if p = [] then (False, t)
      else if \<not> path_free t robot p then (False, t)
      else (True, reserve_path t robot p))"


section \<open>Notions used in the statements\<close>

text \<open>The steps \<open>(path[i], path[i+1])\<close> of a path, and its vertices other than the two ends.\<close>

definition steps :: "int list \<Rightarrow> (int \<times> int) list" where
  "steps p = zip p (tl p)"

definition intermediates :: "int list \<Rightarrow> int list" where
  "intermediates p = butlast (tl p)"

text \<open>The robot stands in the queue of the vertex.\<close>

definition queued :: "'r traffic \<Rightarrow> int \<Rightarrow> 'r \<Rightarrow> bool" where
  "queued t v robot = (case intersection_queues t v of None \<Rightarrow> False | Some q \<Rightarrow> robot \<in> set q)"

text \<open>Concrete inputs.\<close>

definition charging_robot :: robot where
  "charging_robot =
     (new_robot 1 0 0)\<lparr>status := CHARGING, battery := 189 / 2, path := [4, 5],
        destination_vertex_idx := Some 5, current_vertex_idx := Some 3\<rparr>"

definition held_traffic :: "nat traffic" where
  "held_traffic = \<lparr>reservations = [(1, 2) \<mapsto> 7], intersection_queues = Map.empty\<rparr>"

definition free_traffic :: "nat traffic" where
  "free_traffic = \<lparr>reservations = Map.empty, intersection_queues = Map.empty\<rparr>"

text \<open>
  What the first loop of \<open>update\<close> does to one robot, and what the second loop does to a
  robot it makes wait.
\<close>

definition update_robot :: "nav_graph \<Rightarrow> robot \<Rightarrow> robot result" where
  "update_robot g robot =
     (case current_vertex_idx robot of
        None \<Rightarrow> Some (Inl TypeError)
      | Some c \<Rightarrow>
          if c \<ge> int (length (vertices g))
          then Some (Inr (robot\<lparr>current_vertex_idx := None, status := IDLE\<rparr>))
          else if status robot = CHARGING then Some (Inr (update_charging robot))
          else if status robot = MOVING \<or> status robot = WAITING then update_position g robot
          else Some (Inr robot))"

definition wait_at_lane :: "robot \<Rightarrow> robot" where
  "wait_at_lane robot =
     robot\<lparr>status := WAITING,
           log := log robot @ [WaitingAtLane (rid robot) (get_lane_key (the (current_lane robot)))]\<rparr>"

text \<open>The states of the fleet manager that its operations can produce.\<close>

inductive reachable :: "fleet \<Rightarrow> bool" where
  init: "reachable init_fleet"
| spawn: "reachable f \<Longrightarrow> spawn_robot g f vertex_idx = Inr (ok, f') \<Longrightarrow> reachable f'"
| assign: "reachable f \<Longrightarrow> fleet_assign_task g f robot_id destination_idx = Some (Inr (ok, f'))
     \<Longrightarrow> reachable f'"
| tick: "reachable f \<Longrightarrow> update g f = Some (Inr f') \<Longrightarrow> reachable f'"
| reset: "reachable f \<Longrightarrow> reachable (reset_for_new_level f)"

definition battery_ok :: "robot \<Rightarrow> bool" where
  "battery_ok r = (0 \<le> battery r \<and> battery r \<le> 100)"

text \<open>
  A robot before and after an operation: its battery went down only if it was \<open>MOVING\<close>,
  and up only if it was \<open>CHARGING\<close>.
\<close>

definition battery_moves :: "robot \<Rightarrow> robot \<Rightarrow> bool" where
  "battery_moves r r' =
     ((battery r' < battery r \<longrightarrow> status r = MOVING)
      \<and> (battery r < battery r' \<longrightarrow> status r = CHARGING))"

text \<open>
  The ids of a fleet are 1, 2, ... in the order of the list, and the counter is the next
  one.
\<close>

definition ids_ok :: "fleet \<Rightarrow> bool" where
  "ids_ok f =
     (robot_id_counter f = int (length (robots f)) + 1
      \<and> list_all (\<lambda>i. rid (robots f ! i) = int i + 1) [0..<length (robots f)])"

text \<open>
  Concrete inputs: three vertices in a line, 0 - 1 - 2, none of them a charger; the fleet
  after a robot is spawned at vertex 0, and after that robot is sent to vertex 2.
\<close>

definition line_graph :: nav_graph where
  "line_graph =
     \<lparr>vertices = [\<lparr>vx = 0, vy = 0, name = ''a'', is_charger = False\<rparr>,
                  \<lparr>vx = 1, vy = 0, name = ''b'', is_charger = False\<rparr>,
                  \<lparr>vx = 2, vy = 0, name = ''c'', is_charger = False\<rparr>],
      lanes = [\<lparr>start_idx = 0, end_idx = 1, speed_limit = 0\<rparr>,
               \<lparr>start_idx = 1, end_idx = 2, speed_limit = 0\<rparr>]\<rparr>"

definition spawned_fleet :: fleet where
  "spawned_fleet = snd (projr (spawn_robot line_graph init_fleet 0))"

definition moving_fleet :: fleet where
  "moving_fleet = snd (projr (the (fleet_assign_task line_graph spawned_fleet 1 2)))"

text \<open>
  The call returns a value for which \<open>P\<close> holds; the call raises \<open>e\<close>.
\<close>

definition returns :: "'a result \<Rightarrow> ('a \<Rightarrow> bool) \<Rightarrow> bool" where
  "returns m P = (case m of Some (Inr v) \<Rightarrow> P v | _ \<Rightarrow> False)"

definition raises :: "'a result \<Rightarrow> error \<Rightarrow> bool" where
  "raises m e = (case m of Some (Inl e') \<Rightarrow> e' = e | _ \<Rightarrow> False)"

text \<open>
  The host's commands, run one after the other on the manager: spawn at a vertex, assign a
  destination to a robot id, tick a number of times. A refused spawn or assignment
  leaves the loop running.
\<close>

datatype command = Spawn int | Assign int int | Ticks nat

fun run :: "nav_graph \<Rightarrow> command list \<Rightarrow> fleet \<Rightarrow> fleet result" where
  "run g [] f = Some (Inr f)"
| "run g (Spawn v # cs) f =
     (case spawn_robot g f v of Inl e \<Rightarrow> Some (Inl e) | Inr (ok, f') \<Rightarrow> run g cs f')"
| "run g (Assign robot_id destination_idx # cs) f =
     rbind (fleet_assign_task g f robot_id destination_idx) (\<lambda>(ok, f'). run g cs f')"
| "run g (Ticks n # cs) f = rbind (ticks n g f) (run g cs)"

text \<open>
  More concrete inputs: two charger vertices joined by a lane; the line 0 - 1 - 2 with a
  fourth vertex, a charger, that no lane reaches; a level with a single vertex.
\<close>

definition charger_pair :: nav_graph where
  "charger_pair =
     \<lparr>vertices = [\<lparr>vx = 0, vy = 0, name = ''a'', is_charger = True\<rparr>,
                  \<lparr>vx = 1, vy = 0, name = ''b'', is_charger = True\<rparr>],
      lanes = [\<lparr>start_idx = 0, end_idx = 1, speed_limit = 0\<rparr>]\<rparr>"

definition island_graph :: nav_graph where
  "island_graph =
     \<lparr>vertices = [\<lparr>vx = 0, vy = 0, name = ''a'', is_charger = False\<rparr>,
                  \<lparr>vx = 1, vy = 0, name = ''b'', is_charger = False\<rparr>,
                  \<lparr>vx = 2, vy = 0, name = ''c'', is_charger = False\<rparr>,
                  \<lparr>vx = 3, vy = 0, name = ''d'', is_charger = True\<rparr>],
      lanes = [\<lparr>start_idx = 0, end_idx = 1, speed_limit = 0\<rparr>,
               \<lparr>start_idx = 1, end_idx = 2, speed_limit = 0\<rparr>]\<rparr>"

definition single_vertex :: nav_graph where
  "single_vertex =
     \<lparr>vertices = [\<lparr>vx = 0, vy = 0, name = ''a'', is_charger = False\<rparr>], lanes = []\<rparr>"

text \<open>A fleet of one waiting robot, on a lane that nobody else holds.\<close>

definition lone_waiting_fleet :: fleet where
  "lone_waiting_fleet =
     init_fleet\<lparr>robots :=
       [(new_robot 1 0 0)\<lparr>status := WAITING, current_vertex_idx := Some 0,
          destination_vertex_idx := Some 2, path := [1, 2], current_lane := Some (0, 1),
          progress := 1 / 20\<rparr>],
       robot_id_counter := 2\<rparr>"

text \<open>
  The occupancy table lists every robot at its current vertex; the number of robots whose
  current vertex is \<open>v\<close>.
\<close>

definition table_ok :: "fleet \<Rightarrow> bool" where
  "table_ok f =
     (\<forall>i v. i < length (robots f) \<and> current_vertex_idx (robots f ! i) = Some v
        \<longrightarrow> (\<exists>l. occupied_vertices f v = Some l \<and> i \<in> set l))"

definition occupant_count :: "fleet \<Rightarrow> int \<Rightarrow> nat" where
  "occupant_count f v = length (filter (\<lambda>r. current_vertex_idx r = Some v) (robots f))"

text \<open>
  The lane key a robot claims in the second loop of \<open>update\<close>, if any; the robots as the
  first loop of \<open>update\<close> leaves them, which is what the second loop arbitrates; and the
  condition under which the robot at position \<open>j\<close> is the first to claim the key \<open>k\<close>.
\<close>

definition lane_of :: "robot \<Rightarrow> (int \<times> int) option" where
  "lane_of r = (if status r = MOVING then map_option get_lane_key (current_lane r) else None)"

definition moved_robots :: "nav_graph \<Rightarrow> fleet \<Rightarrow> robot list" where
  "moved_robots g f =
     (case update_robots g 0 (robots f)
             (\<lambda>idx. if 0 \<le> idx \<and> idx < int (length (vertices g)) then Some [] else None) of
        Some (Inr (rs, occ)) \<Rightarrow> rs
      | _ \<Rightarrow> [])"

definition first_claim :: "((int \<times> int) \<rightharpoonup> nat) \<Rightarrow> robot list \<Rightarrow> nat \<Rightarrow> int \<times> int \<Rightarrow> bool" where
  "first_claim tbl rs j k = (tbl k = None \<and> list_all (\<lambda>m. lane_of (rs ! m) \<noteq> Some k) [0..<j])"

section \<open>The tick, robot by robot\<close>

lemma rbind_Inr:
  "rbind m f = Some (Inr y) \<longleftrightarrow> (\<exists>x. m = Some (Inr x) \<and> f x = Some (Inr y))"
  by (auto simp: rbind_def split: option.splits sum.splits)

lemma update_robots_all2:
  "update_robots g i rs occ = Some (Inr (rs', occ'))
   \<Longrightarrow> list_all2 (\<lambda>r r'. update_robot g r = Some (Inr r')) rs rs'"
proof (induction rs arbitrary: i occ rs' occ')
  case Nil
  then show ?case by simp
next
  case (Cons robot rest)
  from Cons.prems obtain c where c: "current_vertex_idx robot = Some c"
    by (cases "current_vertex_idx robot") auto
  show ?case
  proof (cases "c \<ge> int (length (vertices g))")
    case True
    with Cons.prems c obtain rest' where
      "update_robots g (Suc i) rest occ = Some (Inr (rest', occ'))"
      "rs' = robot\<lparr>current_vertex_idx := None, status := IDLE\<rparr> # rest'"
      by (auto simp: rbind_Inr)
    with Cons.IH True c show ?thesis
      by (auto simp: update_robot_def)
  next
    case False
    with Cons.prems c obtain robot' where
      u: "update_robot g robot = Some (Inr robot')"
      and k: "(case current_vertex_idx robot' of
                None \<Rightarrow>
                  rbind (update_robots g (Suc i) rest occ) (\<lambda>(rest', occ').
                    Some (Inr (robot' # rest', occ')))
              | Some c' \<Rightarrow>
                  (case occ c' of
                     None \<Rightarrow> Some (Inl KeyError)
                   | Some occupants \<Rightarrow>
                       rbind (update_robots g (Suc i) rest (occ(c' \<mapsto> occupants @ [i])))
                         (\<lambda>(rest', occ'). Some (Inr (robot' # rest', occ'))))) = Some (Inr (rs', occ'))"
      by (auto simp: rbind_Inr update_robot_def)
    from k obtain rest' occ1 where
      "update_robots g (Suc i) rest occ1 = Some (Inr (rest', occ'))" "rs' = robot' # rest'"
      by (auto simp: rbind_Inr split: option.splits)
    with Cons.IH u show ?thesis by auto
  qed
qed

lemma reserve_lanes_all2:
  "reserve_lanes i rs tbl = (rs', tbl')
   \<Longrightarrow> list_all2 (\<lambda>r r'. r' = r \<or>
          (status r = MOVING \<and> current_lane r \<noteq> None \<and> r' = wait_at_lane r)) rs rs'"
proof (induction rs arbitrary: i tbl rs' tbl')
  case Nil
  then show ?case by simp
next
  case (Cons robot rest)
  from Cons.prems obtain r' rest' tbl1 where
    "reserve_lanes (Suc i) rest tbl1 = (rest', tbl')" "rs' = r' # rest'"
    "r' = robot \<or> (status robot = MOVING \<and> current_lane robot \<noteq> None \<and> r' = wait_at_lane robot)"
    by (auto simp: Let_def wait_at_lane_def split: option.splits if_splits prod.splits)
  with Cons.IH show ?case by auto
qed

lemma update_Inr:
  "update g f = Some (Inr f') \<longleftrightarrow>
     (\<exists>rs occ.
        update_robots g 0 (robots f)
          (\<lambda>idx. if 0 \<le> idx \<and> idx < int (length (vertices g)) then Some [] else None)
          = Some (Inr (rs, occ))
        \<and> f' = f\<lparr>robots := map (\<lambda>r. r\<lparr>log := []\<rparr>) (fst (reserve_lanes 0 rs Map.empty)),
                  occupied_vertices := occ,
                  occupied_lanes := snd (reserve_lanes 0 rs Map.empty),
                  logged := logged f @ concat (map log (fst (reserve_lanes 0 rs Map.empty)))\<rparr>)"
  by (auto simp: update_def rbind_Inr case_prod_beta)

lemma update_robots_steps:
  assumes "update g f = Some (Inr f')"
  shows "\<exists>rs rs'. list_all2 (\<lambda>r r'. update_robot g r = Some (Inr r')) (robots f) rs
       \<and> list_all2 (\<lambda>r r'. r' = r \<or>
            (status r = MOVING \<and> current_lane r \<noteq> None \<and> r' = wait_at_lane r)) rs rs'
       \<and> robots f' = map (\<lambda>r. r\<lparr>log := []\<rparr>) rs'"
proof -
  from assms obtain rs occ where
    a: "update_robots g 0 (robots f)
          (\<lambda>idx. if 0 \<le> idx \<and> idx < int (length (vertices g)) then Some [] else None)
        = Some (Inr (rs, occ))"
    and c: "robots f' = map (\<lambda>r. r\<lparr>log := []\<rparr>) (fst (reserve_lanes 0 rs Map.empty))"
    by (auto simp: update_Inr)
  have b: "reserve_lanes 0 rs Map.empty
      = (fst (reserve_lanes 0 rs Map.empty), snd (reserve_lanes 0 rs Map.empty))"
    by simp
  from update_robots_all2 [OF a] reserve_lanes_all2 [OF b] c show ?thesis by blast
qed

lemma update_pointwise:
  assumes u: "update g f = Some (Inr f')"
    and step: "\<And>r r'. update_robot g r = Some (Inr r') \<Longrightarrow> P r r'"
    and wait: "\<And>r a. P r a \<Longrightarrow> status a = MOVING \<Longrightarrow> current_lane a \<noteq> None
                 \<Longrightarrow> P r (wait_at_lane a)"
    and clear: "\<And>r a. P r a \<Longrightarrow> P r (a\<lparr>log := []\<rparr>)"
  shows "list_all2 P (robots f) (robots f')"
proof -
  from update_robots_steps [OF u] obtain rs rs' where
    a: "list_all2 (\<lambda>r r'. update_robot g r = Some (Inr r')) (robots f) rs"
    and b: "list_all2 (\<lambda>r r'. r' = r \<or>
            (status r = MOVING \<and> current_lane r \<noteq> None \<and> r' = wait_at_lane r)) rs rs'"
    and c: "robots f' = map (\<lambda>r. r\<lparr>log := []\<rparr>) rs'"
    by blast
  have "list_all2 P (robots f) rs'"
  proof (rule list_all2_trans [OF _ a b])
    fix r a b
    assume "update_robot g r = Some (Inr a)"
      and "b = a \<or> (status a = MOVING \<and> current_lane a \<noteq> None \<and> b = wait_at_lane a)"
    then show "P r b" using step wait by blast
  qed
  then show ?thesis
    unfolding c list_all2_map2 by (rule list_all2_mono) (rule clear)
qed

section \<open>What the robot operations leave alone\<close>

lemma move_to_next_vertex_frame:
  "battery (move_to_next_vertex g r) = battery r"
  "rid (move_to_next_vertex g r) = rid r"
  "speed (move_to_next_vertex g r) = speed r"
  "rx (move_to_next_vertex g r) = rx r"
  "ry (move_to_next_vertex g r) = ry r"
  "log (move_to_next_vertex g r) = log r"
  by (simp_all add: move_to_next_vertex_def Let_def split: list.splits)

lemma assign_task_frame:
  assumes "assign_task r d g = Some (Inr (ok, r'))"
  shows "battery r' = battery r \<and> rid r' = rid r \<and> speed r' = speed r
         \<and> rx r' = rx r \<and> ry r' = ry r"
  using assms
  by (auto simp: assign_task_def rbind_Inr Let_def move_to_next_vertex_frame
           split: if_splits option.splits)

lemma consume_battery_frame:
  assumes "consume_battery g r = Some (Inr r')"
  shows "rid r' = rid r \<and> speed r' = speed r \<and> rx r' = rx r \<and> ry r' = ry r
         \<and> (status r \<noteq> MOVING \<longrightarrow> r' = r)
         \<and> (status r = MOVING \<longrightarrow> battery r' = max 0 (battery r - 1 / 10))"
proof (cases "status r = MOVING")
  case False
  with assms show ?thesis by (simp add: consume_battery_def)
next
  case True
  let ?r1 = "r\<lparr>battery := max 0 (battery r - 1 / 10)\<rparr>"
  have "r' = ?r1 \<or> (\<exists>nearest ok r2. assign_task ?r1 nearest g = Some (Inr (ok, r2))
          \<and> r' = r2\<lparr>log := log r2 @ [LowBatteryReroute (rid r2) nearest]\<rparr>)"
    using assms True
    by (auto simp: consume_battery_def Let_def rbind_Inr split: if_splits list.splits)
  then show ?thesis
  proof
    assume "r' = ?r1"
    with True show ?thesis by simp
  next
    assume "\<exists>nearest ok r2. assign_task ?r1 nearest g = Some (Inr (ok, r2))
          \<and> r' = r2\<lparr>log := log r2 @ [LowBatteryReroute (rid r2) nearest]\<rparr>"
    then obtain nearest ok r2 where a: "assign_task ?r1 nearest g = Some (Inr (ok, r2))"
      and b: "r' = r2\<lparr>log := log r2 @ [LowBatteryReroute (rid r2) nearest]\<rparr>"
      by blast
    from assign_task_frame [OF a] b True show ?thesis by simp
  qed
qed

lemma update_position_not_moving:
  "status r \<noteq> MOVING \<Longrightarrow> update_position g r = Some (Inr r)"
  by (simp add: update_position_def)

lemma update_position_battery:
  assumes "update_position g r = Some (Inr r')"
  shows "rid r' = rid r \<and> speed r' = speed r
         \<and> (battery r' = battery r \<or> (status r = MOVING \<and> battery r' = max 0 (battery r - 1 / 10)))"
proof (cases "status r = MOVING")
  case False
  with assms show ?thesis by (simp add: update_position_def)
next
  case True
  show ?thesis
  proof (cases "current_lane r")
    case None
    with assms True show ?thesis
      by (auto simp: update_position_def move_to_next_vertex_frame)
  next
    case (Some l)
    with assms True obtain r1 where c: "consume_battery g r1 = Some (Inr r')"
      and f: "rid r1 = rid r \<and> speed r1 = speed r \<and> battery r1 = battery r"
      by (auto simp: update_position_def Let_def move_to_next_vertex_frame
               split: option.splits prod.splits if_splits)
    from consume_battery_frame [OF c] f True show ?thesis
      by (cases "status r1 = MOVING") auto
  qed
qed

lemma update_charging_battery:
  "rid (update_charging r) = rid r \<and> speed (update_charging r) = speed r
   \<and> (battery (update_charging r) = battery r
       \<or> (status r = CHARGING \<and> battery (update_charging r) = min 100 (battery r + 1)))"
  by (simp add: update_charging_def Let_def)

lemma update_robot_cases:
  assumes "update_robot g r = Some (Inr r')"
  obtains c where "current_vertex_idx r = Some c" "c \<ge> int (length (vertices g))"
      "r' = r\<lparr>current_vertex_idx := None, status := IDLE\<rparr>"
  | c where "current_vertex_idx r = Some c" "c < int (length (vertices g))"
      "status r = CHARGING" "r' = update_charging r"
  | c where "current_vertex_idx r = Some c" "c < int (length (vertices g))"
      "status r = MOVING" "update_position g r = Some (Inr r')"
  | c where "current_vertex_idx r = Some c" "c < int (length (vertices g))"
      "status r \<noteq> CHARGING" "status r \<noteq> MOVING" "r' = r"
proof -
  from assms obtain c where c: "current_vertex_idx r = Some c"
    by (cases "current_vertex_idx r") (simp_all add: update_robot_def)
  show thesis
  proof (cases "c \<ge> int (length (vertices g))")
    case True
    with assms c have "r' = r\<lparr>current_vertex_idx := None, status := IDLE\<rparr>"
      by (simp add: update_robot_def)
    with c True show thesis by (rule that(1))
  next
    case False
    then have lt: "c < int (length (vertices g))" by simp
    show thesis
    proof (cases "status r")
      case CHARGING
      with assms c False have "r' = update_charging r"
        by (simp add: update_robot_def)
      with c lt CHARGING show thesis by (rule that(2))
    next
      case MOVING
      with assms c False have "update_position g r = Some (Inr r')"
        by (simp add: update_robot_def)
      with c lt MOVING show thesis by (rule that(3))
    next
      case WAITING
      then have "update_position g r = Some (Inr r)"
        by (simp add: update_position_not_moving)
      with assms c False WAITING have "r' = r"
        by (simp add: update_robot_def)
      with c lt show thesis using WAITING by (intro that(4)) simp_all
    next
      case IDLE
      with assms c False have "r' = r"
        by (simp add: update_robot_def)
      with c lt show thesis using IDLE by (intro that(4)) simp_all
    next
      case TASK_COMPLETE
      with assms c False have "r' = r"
        by (simp add: update_robot_def)
      with c lt show thesis using TASK_COMPLETE by (intro that(4)) simp_all
    qed
  qed
qed

lemma update_robot_battery:
  assumes "update_robot g r = Some (Inr r')"
  shows "rid r' = rid r \<and> speed r' = speed r
         \<and> (battery r' = battery r
             \<or> (status r = MOVING \<and> battery r' = max 0 (battery r - 1 / 10))
             \<or> (status r = CHARGING \<and> battery r' = min 100 (battery r + 1)))"
  using assms
proof (cases rule: update_robot_cases)
  case (1 c)
  then show ?thesis by simp
next
  case (2 c)
  then show ?thesis using update_charging_battery [of r] by blast
next
  case (3 c)
  then show ?thesis using update_position_battery [of g r r'] by blast
next
  case (4 c)
  then show ?thesis by simp
qed


section \<open>What the fleet operations do to the list of robots\<close>

lemma update_robots_counter:
  assumes "update g f = Some (Inr f')"
  shows "robot_id_counter f' = robot_id_counter f"
  using assms by (auto simp: update_Inr)

lemma update_rid_battery:
  assumes "update g f = Some (Inr f')"
  shows "list_all2 (\<lambda>r r'. rid r' = rid r
           \<and> (battery r' = battery r
             \<or> (status r = MOVING \<and> battery r' = max 0 (battery r - 1 / 10))
             \<or> (status r = CHARGING \<and> battery r' = min 100 (battery r + 1))))
           (robots f) (robots f')"
proof (rule update_pointwise [OF assms])
  fix r r'
  assume "update_robot g r = Some (Inr r')"
  from update_robot_battery [OF this]
  show "rid r' = rid r
           \<and> (battery r' = battery r
             \<or> (status r = MOVING \<and> battery r' = max 0 (battery r - 1 / 10))
             \<or> (status r = CHARGING \<and> battery r' = min 100 (battery r + 1)))"
    by blast
qed (simp_all add: wait_at_lane_def)

lemma spawn_robot_cases:
  assumes "spawn_robot g f v = Inr (ok, f')"
  shows "(\<not> ok \<and> f' = f)
       \<or> (ok \<and> 0 \<le> v \<and> v < int (length (vertices g))
          \<and> robots f' = robots f @
               [(new_robot (robot_id_counter f) (vx (vertices g ! nat v)) (vy (vertices g ! nat v)))
                  \<lparr>current_vertex_idx := Some v\<rparr>]
          \<and> robot_id_counter f' = robot_id_counter f + 1)"
  using assms
  by (auto simp: spawn_robot_def Let_def split: if_splits sum.splits bool.splits)

lemma find_robot_Some:
  "find_robot robot_id rs = Some i \<Longrightarrow> i < length rs \<and> rid (rs ! i) = robot_id"
  by (induction rs arbitrary: i) (auto split: if_splits)

lemma fleet_assign_task_cases:
  assumes "fleet_assign_task g f robot_id d = Some (Inr (ok, f'))"
  shows "(\<not> ok \<and> f' = f)
       \<or> (\<exists>i r. find_robot robot_id (robots f) = Some i
            \<and> assign_task (robots f ! i) d g = Some (Inr (ok, r))
            \<and> f' = f\<lparr>robots := (robots f)[i := (if ok then r\<lparr>status := MOVING\<rparr> else r)]\<rparr>)"
proof (cases "find_robot robot_id (robots f)")
  case None
  with assms show ?thesis by (simp add: fleet_assign_task_def)
next
  case (Some i)
  show ?thesis
  proof (cases "f' = f \<and> \<not> ok")
    case True
    then show ?thesis by simp
  next
    case False
    with assms Some have "\<exists>r. assign_task (robots f ! i) d g = Some (Inr (ok, r))
            \<and> f' = f\<lparr>robots := (robots f)[i := (if ok then r\<lparr>status := MOVING\<rparr> else r)]\<rparr>"
      by (auto simp: fleet_assign_task_def Let_def rbind_Inr
               split: if_splits sum.splits bool.splits)
    with Some show ?thesis by blast
  qed
qed

lemma fleet_assign_task_rid_battery:
  assumes "fleet_assign_task g f robot_id d = Some (Inr (ok, f'))"
  shows "robot_id_counter f' = robot_id_counter f
       \<and> list_all2 (\<lambda>r r'. rid r' = rid r \<and> battery r' = battery r) (robots f) (robots f')"
proof -
  from fleet_assign_task_cases [OF assms]
  consider "f' = f"
    | i r where "find_robot robot_id (robots f) = Some i"
        "assign_task (robots f ! i) d g = Some (Inr (ok, r))"
        "f' = f\<lparr>robots := (robots f)[i := (if ok then r\<lparr>status := MOVING\<rparr> else r)]\<rparr>"
    by blast
  then show ?thesis
  proof cases
    case 1
    then show ?thesis by (simp add: list_all2_same)
  next
    case 2
    from assign_task_frame [OF 2(2)]
    have "rid r = rid (robots f ! i) \<and> battery r = battery (robots f ! i)" by simp
    with 2(3) find_robot_Some [OF 2(1)] show ?thesis
      by (auto simp: list_all2_conv_all_nth nth_list_update)
  qed
qed

lemma reachable_ids: "reachable f \<Longrightarrow> ids_ok f"
proof (induction rule: reachable.induct)
  case init
  show ?case by (simp add: ids_ok_def init_fleet_def)
next
  case (spawn f g vertex_idx ok f')
  from spawn_robot_cases [OF spawn.hyps(2)] spawn.IH show ?case
    by (auto simp: ids_ok_def list_all_iff nth_append new_robot_def)
next
  case (assign f g robot_id destination_idx ok f')
  from fleet_assign_task_rid_battery [OF assign.hyps(2)] assign.IH show ?case
    by (auto simp: ids_ok_def list_all_iff list_all2_conv_all_nth)
next
  case (tick f g f')
  from update_rid_battery [OF tick.hyps(2)] update_robots_counter [OF tick.hyps(2)] tick.IH
  show ?case
    by (auto simp: ids_ok_def list_all_iff list_all2_conv_all_nth)
next
  case (reset f)
  show ?case by (simp add: ids_ok_def reset_for_new_level_def)
qed

lemma reachable_battery: "reachable f \<Longrightarrow> list_all battery_ok (robots f)"
proof (induction rule: reachable.induct)
  case init
  show ?case by (simp add: init_fleet_def)
next
  case (spawn f g vertex_idx ok f')
  from spawn_robot_cases [OF spawn.hyps(2)] spawn.IH show ?case
    by (auto simp: battery_ok_def new_robot_def)
next
  case (assign f g robot_id destination_idx ok f')
  from fleet_assign_task_rid_battery [OF assign.hyps(2)] assign.IH show ?case
    by (auto simp: battery_ok_def list_all_length list_all2_conv_all_nth)
next
  case (tick f g f')
  from update_rid_battery [OF tick.hyps(2)]
  have "list_all2 (\<lambda>r r'. battery_ok r \<longrightarrow> battery_ok r') (robots f) (robots f')"
    by (rule list_all2_mono) (auto simp: battery_ok_def)
  with tick.IH show ?case
    by (auto simp: list_all_length list_all2_conv_all_nth)
next
  case (reset f)
  show ?case by (simp add: reset_for_new_level_def)
qed


section \<open>Evaluating the concrete inputs\<close>

lemmas eval_defs =
  py_get_def py_set_def py_index_def get_adjacent_vertices_def find_shortest_path_def
  reconstruct.simps rbind_def Let_def upt_rec
  numeral_eq_enat one_enat_def zero_enat_def
  new_robot_def connects_def move_to_next_vertex_def assign_task_def
  is_vertex_occupied_def spawn_robot_def fleet_assign_task_def init_fleet_def

lemma line_graph_sel:
  "vertices line_graph =
     [\<lparr>vx = 0, vy = 0, name = ''a'', is_charger = False\<rparr>,
      \<lparr>vx = 1, vy = 0, name = ''b'', is_charger = False\<rparr>,
      \<lparr>vx = 2, vy = 0, name = ''c'', is_charger = False\<rparr>]"
  "lanes line_graph =
     [\<lparr>start_idx = 0, end_idx = 1, speed_limit = 0\<rparr>,
      \<lparr>start_idx = 1, end_idx = 2, speed_limit = 0\<rparr>]"
  by (simp_all add: line_graph_def)

lemma line_path_0_2: "find_shortest_path line_graph 0 2 = Some (Inr [0, 1, 2])"
  by (simp add: eval_defs line_graph_sel)

lemma spawned_fleet_eq:
  "spawned_fleet =
     \<lparr>robots = [(new_robot 1 0 0)\<lparr>current_vertex_idx := Some 0\<rparr>], robot_id_counter = 2,
      occupied_vertices = [0 \<mapsto> [0]], occupied_lanes = Map.empty,
      logged = [SpawnedRobot 1 0 ''a'']\<rparr>"
  by (simp add: spawned_fleet_def eval_defs line_graph_def)

lemma spawn_line_0: "spawn_robot line_graph init_fleet 0 = Inr (True, spawned_fleet)"
  unfolding spawned_fleet_eq by (simp add: eval_defs line_graph_sel)

lemma moving_fleet_eq:
  "moving_fleet =
     spawned_fleet\<lparr>robots :=
       [(new_robot 1 0 0)\<lparr>current_vertex_idx := Some 0, destination_vertex_idx := Some 2,
          path := [1, 2], status := MOVING, current_lane := Some (0, 1),
          log := [AssignedTask 1 2]\<rparr>]\<rparr>"
  unfolding moving_fleet_def fleet_assign_task_def
  by (simp add: spawned_fleet_eq assign_task_def line_path_0_2 rbind_def Let_def
        move_to_next_vertex_def connects_def is_vertex_occupied_def new_robot_def line_graph_sel py_get_def py_index_def)

lemma assign_line_1_2:
  "fleet_assign_task line_graph spawned_fleet 1 2 = Some (Inr (True, moving_fleet))"
  unfolding moving_fleet_eq fleet_assign_task_def
  by (simp add: spawned_fleet_eq assign_task_def line_path_0_2 rbind_def Let_def
        move_to_next_vertex_def connects_def is_vertex_occupied_def new_robot_def line_graph_sel py_get_def py_index_def)

lemma reachable_spawned: "reachable spawned_fleet"
  by (rule reachable.spawn [OF reachable.init spawn_line_0])

lemma reachable_moving: "reachable moving_fleet"
  by (rule reachable.assign [OF reachable_spawned assign_line_1_2])


section \<open>Running commands\<close>

lemma returns_iff: "returns m P \<longleftrightarrow> (\<exists>v. m = Some (Inr v) \<and> P v)"
  by (auto simp: returns_def split: option.splits sum.splits)

lemma ticks_reachable: "reachable f \<Longrightarrow> ticks n g f = Some (Inr f') \<Longrightarrow> reachable f'"
proof (induction n arbitrary: f)
  case 0
  then show ?case by simp
next
  case (Suc n)
  from Suc.prems(2) obtain f1 where "update g f = Some (Inr f1)" "ticks n g f1 = Some (Inr f')"
    by (auto simp: rbind_Inr)
  with Suc.IH Suc.prems(1) show ?case by (blast intro: reachable.tick)
qed

lemma run_reachable: "reachable f \<Longrightarrow> run g cs f = Some (Inr f') \<Longrightarrow> reachable f'"
proof (induction g cs f rule: run.induct)
  case (1 g f)
  then show ?case by simp
next
  case (2 g v cs f)
  from "2.prems"(2) obtain ok f1 where s: "spawn_robot g f v = Inr (ok, f1)"
    and r: "run g cs f1 = Some (Inr f')"
    by (auto split: sum.splits)
  from reachable.spawn [OF "2.prems"(1) s] have "reachable f1" .
  with "2.IH" s r show ?case by simp
next
  case (3 g robot_id destination_idx cs f)
  from "3.prems"(2) obtain ok f1 where
    s: "fleet_assign_task g f robot_id destination_idx = Some (Inr (ok, f1))"
    and r: "run g cs f1 = Some (Inr f')"
    by (auto simp: rbind_Inr)
  from reachable.assign [OF "3.prems"(1) s] have "reachable f1" .
  with "3.IH" s r show ?case by simp
next
  case (4 g n cs f)
  from "4.prems"(2) obtain f1 where s: "ticks n g f = Some (Inr f1)"
    and r: "run g cs f1 = Some (Inr f')"
    by (auto simp: rbind_Inr)
  from ticks_reachable [OF "4.prems"(1) s] have "reachable f1" .
  with "4.IH" s r show ?case by simp
qed


section \<open>Charging (claim C10)\<close>

text \<open>
  Claim C10. For a robot whose status is \<open>CHARGING\<close>, \<open>update_charging\<close> changes the
  battery, the status and the log only: the battery becomes \<open>min 100 (battery + 1)\<close>, and
  once that value is at least 95 the status becomes \<open>IDLE\<close> (never \<open>MOVING\<close>) and one line
  is logged; path, destination, current lane, progress, position and current vertex stay
  as they were, so an interrupted task is not resumed.
\<close>

theorem update_charging_frame:
  "status r = CHARGING \<Longrightarrow>
   update_charging r =
     r\<lparr>battery := min 100 (battery r + 1),
       status := (if min 100 (battery r + 1) \<ge> 95 then IDLE else CHARGING),
       log := (if min 100 (battery r + 1) \<ge> 95 then log r @ [FinishedCharging (rid r)] else log r)\<rparr>
   \<and> status (update_charging r) \<noteq> MOVING
   \<and> path (update_charging r) = path r
   \<and> destination_vertex_idx (update_charging r) = destination_vertex_idx r
   \<and> current_lane (update_charging r) = current_lane r
   \<and> progress (update_charging r) = progress r
   \<and> rx (update_charging r) = rx r \<and> ry (update_charging r) = ry r
   \<and> current_vertex_idx (update_charging r) = current_vertex_idx r"
  by (simp add: update_charging_def Let_def)

theorem update_charging_frame_witness:
  "status charging_robot = CHARGING
   \<and> battery (update_charging charging_robot) = 191 / 2
   \<and> status (update_charging charging_robot) = IDLE
   \<and> path (update_charging charging_robot) = [4, 5]
   \<and> destination_vertex_idx (update_charging charging_robot) = Some 5"
proof -
  have h: "status charging_robot = CHARGING"
    by (simp add: charging_robot_def)
  show ?thesis
    using h update_charging_frame [OF h]
    by (simp add: charging_robot_def new_robot_def)
qed


section \<open>Path reservation (claim C9)\<close>

lemma path_free_steps:
  "path_free t robot p \<Longrightarrow> (a, b) \<in> set (steps p) \<Longrightarrow>
     reservations t (lane_key_of a b) = None \<or> reservations t (lane_key_of a b) = Some robot"
  apply (induction t robot p rule: path_free.induct)
  apply (auto simp: steps_def Let_def split: if_splits)
  done

lemma path_free_intermediates:
  "path_free t robot p \<Longrightarrow> v \<in> set (intermediates p) \<Longrightarrow>
     intersection_queues t v = None \<or> intersection_queues t v = Some []"
  apply (induction t robot p rule: path_free.induct)
  apply (auto simp: intermediates_def Let_def split: if_splits option.splits)
  done

lemma reserve_path_keeps_res:
  "reservations t k = Some robot \<Longrightarrow> reservations (reserve_path t robot p) k = Some robot"
  apply (induction t robot p rule: reserve_path.induct)
  apply (auto simp: Let_def)
  done

lemma reserve_path_keeps_queue:
  "queued t v robot \<Longrightarrow> queued (reserve_path t robot p) v robot"
proof (induction t robot p rule: reserve_path.induct)
  case (1 t robot current next_vertex rest)
  let ?t1 = "t\<lparr>reservations := (reservations t)(lane_key_of current next_vertex \<mapsto> robot)\<rparr>"
  let ?t2 = "(if rest \<noteq> [] then
                  ?t1\<lparr>intersection_queues :=
                       (intersection_queues ?t1)(next_vertex \<mapsto>
                          (case intersection_queues ?t1 next_vertex of
                             None \<Rightarrow> [] | Some q \<Rightarrow> q) @ [robot])\<rparr>
                else ?t1)"
  have "queued ?t2 v robot"
    using "1.prems" by (auto simp: queued_def split: option.splits)
  then have "queued (reserve_path ?t2 robot (next_vertex # rest)) v robot"
    using "1.IH"[OF refl refl] by simp
  then show ?case by (simp add: Let_def)
qed (simp_all)

lemma reserve_path_steps:
  "(a, b) \<in> set (steps p) \<Longrightarrow> reservations (reserve_path t robot p) (lane_key_of a b) = Some robot"
  apply (induction t robot p rule: reserve_path.induct)
  apply (auto simp: steps_def Let_def reserve_path_keeps_res)
  done

lemma reserve_path_intermediates:
  "v \<in> set (intermediates p) \<Longrightarrow> queued (reserve_path t robot p) v robot"
proof (induction t robot p rule: reserve_path.induct)
  case (1 t robot current next_vertex rest)
  let ?t1 = "t\<lparr>reservations := (reservations t)(lane_key_of current next_vertex \<mapsto> robot)\<rparr>"
  let ?t2 = "(if rest \<noteq> [] then
                  ?t1\<lparr>intersection_queues :=
                       (intersection_queues ?t1)(next_vertex \<mapsto>
                          (case intersection_queues ?t1 next_vertex of
                             None \<Rightarrow> [] | Some q \<Rightarrow> q) @ [robot])\<rparr>
                else ?t1)"
  have rest: "rest \<noteq> []" using "1.prems" by (auto simp: intermediates_def)
  have "v = next_vertex \<or> v \<in> set (intermediates (next_vertex # rest))"
    using "1.prems" rest by (cases rest) (auto simp: intermediates_def)
  then have "queued (reserve_path ?t2 robot (next_vertex # rest)) v robot"
  proof
    assume "v = next_vertex"
    then have "queued ?t2 v robot" using rest by (simp add: queued_def)
    then show ?thesis by (rule reserve_path_keeps_queue)
  next
    assume "v \<in> set (intermediates (next_vertex # rest))"
    then show ?thesis using "1.IH"[OF refl refl] by simp
  qed
  then show ?case by (simp add: Let_def)
qed (simp_all add: intermediates_def)

text \<open>
  Claim C9. \<open>request_path\<close> is all-or-nothing. If a lane key along the path is reserved
  by a different robot, or a vertex of the path other than its two ends has a non-empty
  queue, the call returns \<open>False\<close> and both tables are unchanged; whenever it returns
  \<open>False\<close> the tables are unchanged; and if it returns \<open>True\<close>, every lane key of the
  path is reserved for the robot and the robot stands in the queue of every vertex of the
  path other than its two ends.
\<close>

theorem request_path_atomic:
  "((\<exists>(a, b) \<in> set (steps p). \<exists>other. reservations t (lane_key_of a b) = Some other \<and> other \<noteq> robot)
      \<or> (\<exists>v \<in> set (intermediates p). \<exists>q. intersection_queues t v = Some q \<and> q \<noteq> [])
     \<longrightarrow> request_path t robot p = (False, t))
   \<and> (\<not> fst (request_path t robot p) \<longrightarrow> snd (request_path t robot p) = t)
   \<and> (fst (request_path t robot p) \<longrightarrow>
        (\<forall>(a, b) \<in> set (steps p).
           reservations (snd (request_path t robot p)) (lane_key_of a b) = Some robot)
        \<and> (\<forall>v \<in> set (intermediates p). queued (snd (request_path t robot p)) v robot))"
proof (intro conjI impI)
  assume "(\<exists>(a, b) \<in> set (steps p). \<exists>other. reservations t (lane_key_of a b) = Some other \<and> other \<noteq> robot)
      \<or> (\<exists>v \<in> set (intermediates p). \<exists>q. intersection_queues t v = Some q \<and> q \<noteq> [])"
  then have "\<not> path_free t robot p"
  proof
    assume "\<exists>(a, b) \<in> set (steps p). \<exists>other. reservations t (lane_key_of a b) = Some other \<and> other \<noteq> robot"
    then obtain a b other where "(a, b) \<in> set (steps p)"
      and "reservations t (lane_key_of a b) = Some other" and "other \<noteq> robot"
      by blast
    then show ?thesis
      using path_free_steps [of t robot p a b] by auto
  next
    assume "\<exists>v \<in> set (intermediates p). \<exists>q. intersection_queues t v = Some q \<and> q \<noteq> []"
    then obtain v q where "v \<in> set (intermediates p)"
      and "intersection_queues t v = Some q" and "q \<noteq> []"
      by blast
    then show ?thesis
      using path_free_intermediates [of t robot p v] by auto
  qed
  then show "request_path t robot p = (False, t)"
    by (simp add: request_path_def)
next
  assume "\<not> fst (request_path t robot p)"
  then show "snd (request_path t robot p) = t"
    by (simp add: request_path_def split: if_splits)
next
  assume "fst (request_path t robot p)"
  then have eq: "snd (request_path t robot p) = reserve_path t robot p"
    by (simp add: request_path_def split: if_splits)
  show "\<forall>(a, b) \<in> set (steps p).
           reservations (snd (request_path t robot p)) (lane_key_of a b) = Some robot"
    unfolding eq by (auto intro: reserve_path_steps)
  show "\<forall>v \<in> set (intermediates p). queued (snd (request_path t robot p)) v robot"
    unfolding eq by (auto intro: reserve_path_intermediates)
qed

theorem request_path_atomic_witness:
  "reservations held_traffic (lane_key_of 1 2) = Some 7
   \<and> request_path held_traffic 3 [0, 1, 2] = (False, held_traffic)
   \<and> fst (request_path free_traffic 3 [0, 1, 2])
   \<and> reservations (snd (request_path free_traffic 3 [0, 1, 2])) (lane_key_of 0 1) = Some 3
   \<and> reservations (snd (request_path free_traffic 3 [0, 1, 2])) (lane_key_of 1 2) = Some 3
   \<and> queued (snd (request_path free_traffic 3 [0, 1, 2])) 1 3"
proof -
  have r: "reservations held_traffic (lane_key_of 1 2) = Some 7"
    by (simp add: held_traffic_def lane_key_of_def)
  have s: "(1, 2) \<in> set (steps [0, 1, 2])" "(0, 1) \<in> set (steps [0, 1, 2])"
    by (simp_all add: steps_def)
  have i: "1 \<in> set (intermediates [0, 1, 2])"
    by (simp add: intermediates_def)
  have ok: "fst (request_path free_traffic 3 [0, 1, 2])"
    by (simp add: request_path_def free_traffic_def lane_key_of_def)
  have hyp: "\<exists>(a, b) \<in> set (steps [0, 1, 2]).
      \<exists>other. reservations held_traffic (lane_key_of a b) = Some other \<and> other \<noteq> (3::nat)"
    using r s(1) by (intro bexI [of _ "(1, 2)"]) auto
  have no: "request_path held_traffic 3 [0, 1, 2] = (False, held_traffic)"
    using request_path_atomic [of "[0, 1, 2]" held_traffic 3] hyp by blast
  have c: "(\<forall>(a, b) \<in> set (steps [0, 1, 2]).
             reservations (snd (request_path free_traffic 3 [0, 1, 2])) (lane_key_of a b) = Some 3)
           \<and> (\<forall>v \<in> set (intermediates [0, 1, 2]).
                 queued (snd (request_path free_traffic 3 [0, 1, 2])) v 3)"
    using request_path_atomic [of "[0, 1, 2]" free_traffic 3] ok by blast
  show ?thesis
    using r ok no c s i by auto
qed

section \<open>Battery (claim C7)\<close>

text \<open>
  Claim C7. In every state the fleet manager can reach by spawning, assigning tasks,
  ticking and resetting, every robot's battery lies in [0, 100]. Across a tick a robot's
  battery goes down only if its status was \<open>MOVING\<close> and up only if its status was
  \<open>CHARGING\<close>; the same holds for \<open>update_position\<close> and \<open>update_charging\<close> on a robot
  of the fleet; assigning a task and spawning leave the batteries of the robots as they
  were.
\<close>

theorem battery_invariant:
  assumes "reachable f"
  shows "(\<forall>r \<in> set (robots f). 0 \<le> battery r \<and> battery r \<le> 100)
     \<and> (\<forall>g f'. update g f = Some (Inr f') \<longrightarrow> list_all2 battery_moves (robots f) (robots f'))
     \<and> (\<forall>r \<in> set (robots f). battery_moves r (update_charging r)
           \<and> (\<forall>g r'. update_position g r = Some (Inr r') \<longrightarrow> battery_moves r r'))
     \<and> (\<forall>g i d ok f'. fleet_assign_task g f i d = Some (Inr (ok, f')) \<longrightarrow>
           list_all2 (\<lambda>r r'. battery r' = battery r) (robots f) (robots f'))
     \<and> (\<forall>g v ok f'. spawn_robot g f v = Inr (ok, f') \<longrightarrow>
           take (length (robots f)) (robots f') = robots f)"
proof (intro conjI allI impI ballI)
  have ok: "list_all battery_ok (robots f)"
    using assms by (rule reachable_battery)
  {
    fix r assume "r \<in> set (robots f)"
    with ok have b: "battery_ok r" by (simp add: list_all_iff)
    then show "0 \<le> battery r" "battery r \<le> 100" by (simp_all add: battery_ok_def)
    from b update_charging_battery [of r] show "battery_moves r (update_charging r)"
      by (auto simp: battery_moves_def battery_ok_def)
    fix g r' assume "update_position g r = Some (Inr r')"
    from update_position_battery [OF this] b show "battery_moves r r'"
      by (auto simp: battery_moves_def battery_ok_def)
  }
  {
    fix g f' assume u: "update g f = Some (Inr f')"
    have "list_all2 (\<lambda>r r'. battery_ok r \<longrightarrow> battery_moves r r') (robots f) (robots f')"
      by (rule list_all2_mono [OF update_rid_battery [OF u]])
         (auto simp: battery_moves_def battery_ok_def)
    with ok show "list_all2 battery_moves (robots f) (robots f')"
      by (auto simp: list_all2_conv_all_nth list_all_length)
  }
  {
    fix g i d ok' f' assume "fleet_assign_task g f i d = Some (Inr (ok', f'))"
    from fleet_assign_task_rid_battery [OF this]
    show "list_all2 (\<lambda>r r'. battery r' = battery r) (robots f) (robots f')"
      by (auto simp: list_all2_conv_all_nth)
  }
  {
    fix g v ok' f' assume "spawn_robot g f v = Inr (ok', f')"
    from spawn_robot_cases [OF this]
    show "take (length (robots f)) (robots f') = robots f" by auto
  }
qed

theorem battery_invariant_witness:
  "reachable moving_fleet
   \<and> 0 \<le> battery (hd (robots moving_fleet)) \<and> battery (hd (robots moving_fleet)) \<le> 100
   \<and> battery_moves (hd (robots moving_fleet)) (update_charging (hd (robots moving_fleet)))"
proof -
  have m: "hd (robots moving_fleet) \<in> set (robots moving_fleet)"
    by (simp add: moving_fleet_eq)
  show ?thesis
    using reachable_moving battery_invariant [OF reachable_moving] m by blast
qed


section \<open>Robot ids (claim C8)\<close>

theorem robot_id_reused_after_reset:
  "spawn_robot line_graph init_fleet 0 = Inr (True, spawned_fleet)
   \<and> map rid (robots spawned_fleet) = [1]
   \<and> fst (projr (spawn_robot line_graph (reset_for_new_level spawned_fleet) 2))
   \<and> map rid (robots (snd (projr (spawn_robot line_graph (reset_for_new_level spawned_fleet) 2))))
       = [1]"
proof -
  have "map rid (robots spawned_fleet) = [1]"
    by (simp add: spawned_fleet_eq new_robot_def)
  moreover have "fst (projr (spawn_robot line_graph (reset_for_new_level spawned_fleet) 2))
   \<and> map rid (robots (snd (projr (spawn_robot line_graph (reset_for_new_level spawned_fleet) 2))))
       = [1]"
    by (simp add: spawned_fleet_eq reset_for_new_level_def spawn_robot_def
          is_vertex_occupied_def line_graph_sel Let_def new_robot_def)
  ultimately show ?thesis using spawn_line_0 by simp
qed

text \<open>
  Claim C8, as the code has it. Between two resets the ids of the fleet's robots are
  1, 2, ... in spawn order: strictly increasing along the list, pairwise different, and
  the counter is the next id, which a successful spawn gives to the new robot.
  \<open>reset_for_new_level\<close> empties the fleet and sets the counter back to 1, so the ids of
  robots created before a reset are given out again after it.
\<close>

theorem robot_ids_within_fleet:
  assumes "reachable f"
  shows "robot_id_counter f = int (length (robots f)) + 1
     \<and> map rid (robots f) = map (\<lambda>i. int i + 1) [0..<length (robots f)]
     \<and> sorted_wrt (<) (map rid (robots f))
     \<and> distinct (map rid (robots f))
     \<and> (\<forall>g v f'. spawn_robot g f v = Inr (True, f') \<longrightarrow>
           (\<exists>r. robots f' = robots f @ [r] \<and> rid r = robot_id_counter f)
           \<and> robot_id_counter f' = robot_id_counter f + 1)
     \<and> robots (reset_for_new_level f) = []
     \<and> robot_id_counter (reset_for_new_level f) = 1"
proof -
  from reachable_ids [OF assms]
  have c: "robot_id_counter f = int (length (robots f)) + 1"
    and i: "\<And>i. i < length (robots f) \<Longrightarrow> rid (robots f ! i) = int i + 1"
    by (auto simp: ids_ok_def list_all_iff)
  have m: "map rid (robots f) = map (\<lambda>i. int i + 1) [0..<length (robots f)]"
    by (rule nth_equalityI) (simp_all add: i)
  have s: "sorted_wrt (<) (map rid (robots f))"
    by (simp add: sorted_wrt_iff_nth_less i)
  have d: "distinct (map rid (robots f))"
    unfolding m by (simp add: distinct_map inj_on_def)
  have sp: "\<forall>g v f'. spawn_robot g f v = Inr (True, f') \<longrightarrow>
           (\<exists>r. robots f' = robots f @ [r] \<and> rid r = robot_id_counter f)
           \<and> robot_id_counter f' = robot_id_counter f + 1"
  proof (intro allI impI)
    fix g v f' assume "spawn_robot g f v = Inr (True, f')"
    from spawn_robot_cases [OF this]
    show "(\<exists>r. robots f' = robots f @ [r] \<and> rid r = robot_id_counter f)
           \<and> robot_id_counter f' = robot_id_counter f + 1"
      by (auto simp: new_robot_def)
  qed
  from c m s d sp show ?thesis by (simp add: reset_for_new_level_def)
qed

theorem robot_ids_within_fleet_witness:
  "reachable moving_fleet
   \<and> robot_id_counter moving_fleet = 2
   \<and> map rid (robots moving_fleet) = [1]"
proof -
  have l: "length (robots moving_fleet) = 1"
    by (simp add: moving_fleet_eq)
  show ?thesis
    using reachable_moving robot_ids_within_fleet [OF reachable_moving] l by simp
qed

section \<open>Waiting robots (claim C6)\<close>

lemma update_nth:
  assumes u: "update g f = Some (Inr f')" and i: "i < length (robots f)"
  shows "\<exists>a b. update_robot g (robots f ! i) = Some (Inr a)
           \<and> (b = a \<or> (status a = MOVING \<and> current_lane a \<noteq> None \<and> b = wait_at_lane a))
           \<and> robots f' ! i = b\<lparr>log := []\<rparr> \<and> length (robots f') = length (robots f)"
proof -
  from update_robots_steps [OF u] obtain rs rs' where
    a: "list_all2 (\<lambda>r r'. update_robot g r = Some (Inr r')) (robots f) rs"
    and b: "list_all2 (\<lambda>r r'. r' = r \<or>
            (status r = MOVING \<and> current_lane r \<noteq> None \<and> r' = wait_at_lane r)) rs rs'"
    and c: "robots f' = map (\<lambda>r. r\<lparr>log := []\<rparr>) rs'"
    by blast
  from a have l1: "length rs = length (robots f)"
    by (simp add: list_all2_lengthD)
  from b have "length rs = length rs'"
    by (rule list_all2_lengthD)
  with l1 have l: "length rs = length (robots f)" "length rs' = length (robots f)"
    by simp_all
  from a i have "update_robot g (robots f ! i) = Some (Inr (rs ! i))"
    by (rule list_all2_nthD)
  moreover from b i l have "rs' ! i = rs ! i \<or>
      (status (rs ! i) = MOVING \<and> current_lane (rs ! i) \<noteq> None \<and> rs' ! i = wait_at_lane (rs ! i))"
    by (auto dest: list_all2_nthD)
  moreover from c i l have "robots f' ! i = (rs' ! i)\<lparr>log := []\<rparr>" by simp
  ultimately show ?thesis using c l by auto
qed

text \<open>
  Claim C6 as stated fails. Two robots are sent over the same lane in opposite directions;
  at the first tick robot 2 is made to wait. After tick 21 robot 1 has completed its task
  and no robot holds the lane key, yet robot 2 is still \<open>WAITING\<close> after the next tick,
  and after ten more.
\<close>

theorem waiting_robot_stays_waiting:
  "returns (run charger_pair [Spawn 0, Spawn 1, Assign 1 1, Assign 2 0, Ticks 1] init_fleet) (\<lambda>f.
     map status (robots f) = [MOVING, WAITING]
     \<and> map current_lane (robots f) = [Some (0, 1), Some (1, 0)]
     \<and> occupied_lanes f (0, 1) = Some 0)
   \<and> returns (run charger_pair [Spawn 0, Spawn 1, Assign 1 1, Assign 2 0, Ticks 21] init_fleet) (\<lambda>f.
     map status (robots f) = [TASK_COMPLETE, WAITING]
     \<and> occupied_lanes f (0, 1) = None
     \<and> returns (update charger_pair f) (\<lambda>f'. map status (robots f') = [TASK_COMPLETE, WAITING])
     \<and> returns (ticks 10 charger_pair f) (\<lambda>f'. map status (robots f') = [TASK_COMPLETE, WAITING]))"
  by code_simp

text \<open>
  Claim C6, as the code has it. A robot whose status is \<open>WAITING\<close> (and whose current
  vertex is in range of the graph) is left by a tick exactly as it was, but for its drained
  log: it does not advance its progress, and it stays \<open>WAITING\<close> whether or not another
  robot holds its lane key. It becomes \<open>MOVING\<close> again only through a new successful
  \<open>FleetManager.assign_task\<close>.
\<close>

theorem waiting_robot_frozen:
  "(update g f = Some (Inr f') \<and> i < length (robots f) \<and> status (robots f ! i) = WAITING
      \<and> current_vertex_idx (robots f ! i) = Some c \<and> c < int (length (vertices g))
    \<longrightarrow> robots f' ! i = (robots f ! i)\<lparr>log := []\<rparr>
        \<and> progress (robots f' ! i) = progress (robots f ! i)
        \<and> status (robots f' ! i) = WAITING)
   \<and> (fleet_assign_task g f robot_id d = Some (Inr (True, f'))
        \<and> find_robot robot_id (robots f) = Some i
      \<longrightarrow> status (robots f' ! i) = MOVING)"
proof (intro conjI impI)
  assume h: "update g f = Some (Inr f') \<and> i < length (robots f) \<and> status (robots f ! i) = WAITING
      \<and> current_vertex_idx (robots f ! i) = Some c \<and> c < int (length (vertices g))"
  then have u: "update g f = Some (Inr f')" and i: "i < length (robots f)"
    and w: "status (robots f ! i) = WAITING"
    and c: "current_vertex_idx (robots f ! i) = Some c" "c < int (length (vertices g))"
    by simp_all
  from update_nth [OF u i] obtain a b where
    a: "update_robot g (robots f ! i) = Some (Inr a)"
    and b: "b = a \<or> (status a = MOVING \<and> current_lane a \<noteq> None \<and> b = wait_at_lane a)"
    and r: "robots f' ! i = b\<lparr>log := []\<rparr>"
    by blast
  from a w c have "a = robots f ! i"
    by (simp add: update_robot_def update_position_not_moving)
  with b w have "b = robots f ! i" by auto
  with r w show "robots f' ! i = (robots f ! i)\<lparr>log := []\<rparr>"
    by simp
  then show "progress (robots f' ! i) = progress (robots f ! i)"
    by simp
  from \<open>robots f' ! i = (robots f ! i)\<lparr>log := []\<rparr>\<close> w show "status (robots f' ! i) = WAITING"
    by simp
next
  assume h: "fleet_assign_task g f robot_id d = Some (Inr (True, f'))
        \<and> find_robot robot_id (robots f) = Some i"
  then have t: "fleet_assign_task g f robot_id d = Some (Inr (True, f'))"
    and fi: "find_robot robot_id (robots f) = Some i" by simp_all
  from fleet_assign_task_cases [OF t] fi obtain r where
    "f' = f\<lparr>robots := (robots f)[i := r\<lparr>status := MOVING\<rparr>]\<rparr>"
    by auto
  with find_robot_Some [OF fi] show "status (robots f' ! i) = MOVING" by simp
qed

theorem waiting_robot_frozen_witness:
  "\<exists>f'. update line_graph lone_waiting_fleet = Some (Inr f')
     \<and> status (robots lone_waiting_fleet ! 0) = WAITING
     \<and> status (robots f' ! 0) = WAITING
     \<and> progress (robots f' ! 0) = 1 / 20"
proof -
  have "returns (update line_graph lone_waiting_fleet) (\<lambda>_. True)"
    by code_simp
  then obtain f' where u: "update line_graph lone_waiting_fleet = Some (Inr f')"
    by (auto simp: returns_iff)
  have h: "0 < length (robots lone_waiting_fleet)"
    "status (robots lone_waiting_fleet ! 0) = WAITING"
    "current_vertex_idx (robots lone_waiting_fleet ! 0) = Some 0"
    "(0::int) < int (length (vertices line_graph))"
    "progress (robots lone_waiting_fleet ! 0) = 1 / 20"
    by (simp_all add: lone_waiting_fleet_def init_fleet_def new_robot_def line_graph_sel)
  from waiting_robot_frozen [of line_graph lone_waiting_fleet f' 0 0] u h
  have "status (robots f' ! 0) = WAITING \<and> progress (robots f' ! 0) = 1 / 20"
    by simp
  with u h show ?thesis by blast
qed


section \<open>Robots off the graph (claim C5)\<close>

text \<open>
  Claim C5 against the code. A robot stands at vertex 2 when the level shrinks to a single
  vertex. The next tick resets it to \<open>IDLE\<close> with no current vertex, as claimed; but the
  tick after that raises \<open>TypeError\<close>, on any graph: the range check compares the missing
  vertex index with an integer.
\<close>

theorem tick_after_shrink_raises:
  "returns (run line_graph [Spawn 2] init_fleet) (\<lambda>f.
     map current_vertex_idx (robots f) = [Some 2]
     \<and> returns (update single_vertex f) (\<lambda>f1.
          map current_vertex_idx (robots f1) = [None]
          \<and> map status (robots f1) = [IDLE]
          \<and> raises (update single_vertex f1) TypeError
          \<and> raises (update line_graph f1) TypeError))"
  by code_simp


section \<open>Failed assignments (claim C3)\<close>

text \<open>
  Claim C3 against the code. A robot is on its way from vertex 0 to vertex 2 (remaining
  path 1, 2). Assigning it vertex 3, which no lane reaches, returns \<open>False\<close>, but the
  robot's destination is now 3 and its path is empty. The same happens inside
  \<open>update_position\<close> when the battery falls below 20 and the nearest charger (vertex 3)
  cannot be reached: the original destination and remaining path are lost.
\<close>

theorem failed_assign_task_overwrites:
  "returns (run island_graph [Spawn 0, Assign 1 2] init_fleet) (\<lambda>f.
     map status (robots f) = [MOVING]
     \<and> map destination_vertex_idx (robots f) = [Some 2]
     \<and> map path (robots f) = [[1, 2]]
     \<and> returns (assign_task (hd (robots f)) 3 island_graph) (\<lambda>(ok, r).
          \<not> ok \<and> destination_vertex_idx r = Some 3 \<and> path r = [] \<and> r \<noteq> hd (robots f))
     \<and> returns (update_position island_graph ((hd (robots f))\<lparr>battery := 20\<rparr>)) (\<lambda>r.
          status r = MOVING \<and> battery r = 199 / 10 \<and> destination_vertex_idx r = Some 3 \<and> path r = []
          \<and> log r = [AssignedTask 1 2, LowBatteryReroute 1 3]))"
  by code_simp

section \<open>Vertex occupancy (claim C2)\<close>

lemma table_ok_iff:
  "table_ok f \<longleftrightarrow>
     (\<forall>i v. i < length (robots f) \<and> current_vertex_idx (robots f ! i) = Some v
        \<longrightarrow> (\<exists>l. occupied_vertices f v = Some l \<and> i \<in> set l))"
  by (simp add: table_ok_def)

lemma find_shortest_path_hd:
  assumes "find_shortest_path g s e = Some (Inr p)" and "p \<noteq> []"
  shows "hd p = s"
proof (cases "s = e")
  case True
  with assms show ?thesis by (auto simp: find_shortest_path_def)
next
  case False
  with assms obtain path where "p = rev (path @ [s])"
    by (auto simp: find_shortest_path_def Let_def
             split: option.splits sum.splits prod.splits if_splits)
  then show ?thesis by simp
qed

lemma assign_task_current_vertex:
  assumes "assign_task r d g = Some (Inr (ok, r'))"
  shows "current_vertex_idx r' = current_vertex_idx r"
proof (cases "status r = CHARGING \<or> current_vertex_idx r = None")
  case True
  with assms show ?thesis by (auto simp: assign_task_def split: if_splits option.splits)
next
  case False
  then obtain c where c: "current_vertex_idx r = Some c" and s: "status r \<noteq> CHARGING"
    by auto
  from assms c s obtain p where p: "find_shortest_path g c d = Some (Inr p)"
    and r': "r' = (if p = [] then r\<lparr>destination_vertex_idx := Some d, path := p\<rparr>
        else (let r2 = move_to_next_vertex g
                 (r\<lparr>destination_vertex_idx := Some d, path := p, status := MOVING\<rparr>)
              in r2\<lparr>log := log r2 @ [AssignedTask (rid r2) d]\<rparr>))"
    by (auto simp: assign_task_def rbind_Inr Let_def split: if_splits)
  show ?thesis
  proof (cases p)
    case Nil
    with r' show ?thesis by simp
  next
    case (Cons a q)
    with find_shortest_path_hd [OF p] have "a = c" by simp
    with r' Cons c show ?thesis
      by (cases q) (simp_all add: move_to_next_vertex_def Let_def)
  qed
qed

lemma consume_battery_current_vertex:
  assumes "consume_battery g r = Some (Inr r')"
  shows "current_vertex_idx r' = current_vertex_idx r"
proof -
  let ?r1 = "r\<lparr>battery := max 0 (battery r - 1 / 10)\<rparr>"
  have "r' = r \<or> r' = ?r1 \<or> (\<exists>nearest ok r2. assign_task ?r1 nearest g = Some (Inr (ok, r2))
          \<and> r' = r2\<lparr>log := log r2 @ [LowBatteryReroute (rid r2) nearest]\<rparr>)"
    using assms
    by (auto simp: consume_battery_def Let_def rbind_Inr split: if_splits list.splits)
  then show ?thesis
    by (auto dest: assign_task_current_vertex)
qed

lemma update_robots_table:
  assumes "update_robots g i rs occ = Some (Inr (rs', occ'))"
  shows "(\<forall>v l. occ v = Some l \<longrightarrow> (\<exists>l'. occ' v = Some l' \<and> set l \<subseteq> set l'))
       \<and> (\<forall>j v. j < length rs' \<and> current_vertex_idx (rs' ! j) = Some v
             \<longrightarrow> (\<exists>l. occ' v = Some l \<and> i + j \<in> set l))"
  using assms
proof (induction rs arbitrary: i occ rs' occ')
  case Nil
  then show ?case by simp
next
  case (Cons robot rest)
  from Cons.prems obtain c where c: "current_vertex_idx robot = Some c"
    by (cases "current_vertex_idx robot") auto
  have "\<exists>robot' rest' occ1. rs' = robot' # rest'
      \<and> update_robots g (Suc i) rest occ1 = Some (Inr (rest', occ'))
      \<and> (\<forall>v l. occ v = Some l \<longrightarrow> (\<exists>l'. occ1 v = Some l' \<and> set l \<subseteq> set l'))
      \<and> (\<forall>v. current_vertex_idx robot' = Some v \<longrightarrow> (\<exists>l. occ1 v = Some l \<and> i \<in> set l))"
  proof (cases "c \<ge> int (length (vertices g))")
    case True
    with Cons.prems c obtain rest' where
      "update_robots g (Suc i) rest occ = Some (Inr (rest', occ'))"
      "rs' = robot\<lparr>current_vertex_idx := None, status := IDLE\<rparr> # rest'"
      by (auto simp: rbind_Inr)
    then show ?thesis
      by (intro exI [of _ "robot\<lparr>current_vertex_idx := None, status := IDLE\<rparr>"]
                exI [of _ rest'] exI [of _ occ]) simp
  next
    case False
    with Cons.prems c obtain robot' where
      k: "(case current_vertex_idx robot' of
                None \<Rightarrow>
                  rbind (update_robots g (Suc i) rest occ) (\<lambda>(rest', occ').
                    Some (Inr (robot' # rest', occ')))
              | Some c' \<Rightarrow>
                  (case occ c' of
                     None \<Rightarrow> Some (Inl KeyError)
                   | Some occupants \<Rightarrow>
                       rbind (update_robots g (Suc i) rest (occ(c' \<mapsto> occupants @ [i])))
                         (\<lambda>(rest', occ'). Some (Inr (robot' # rest', occ'))))) = Some (Inr (rs', occ'))"
      by (auto simp: rbind_Inr)
    show ?thesis
    proof (cases "current_vertex_idx robot'")
      case None
      with k obtain rest' where
        "update_robots g (Suc i) rest occ = Some (Inr (rest', occ'))" "rs' = robot' # rest'"
        by (auto simp: rbind_Inr)
      with None show ?thesis
        by (intro exI [of _ robot'] exI [of _ rest'] exI [of _ occ]) simp
    next
      case (Some c')
      with k obtain occupants rest' where o: "occ c' = Some occupants"
        and u: "update_robots g (Suc i) rest (occ(c' \<mapsto> occupants @ [i])) = Some (Inr (rest', occ'))"
        and r: "rs' = robot' # rest'"
        by (auto simp: rbind_Inr split: option.splits)
      show ?thesis
        using Some o u r
        by (intro exI [of _ robot'] exI [of _ rest']
                  exI [of _ "occ(c' \<mapsto> occupants @ [i])"]) auto
    qed
  qed
  then obtain robot' rest' occ1 where rs': "rs' = robot' # rest'"
    and u: "update_robots g (Suc i) rest occ1 = Some (Inr (rest', occ'))"
    and m: "\<forall>v l. occ v = Some l \<longrightarrow> (\<exists>l'. occ1 v = Some l' \<and> set l \<subseteq> set l')"
    and h: "\<forall>v. current_vertex_idx robot' = Some v \<longrightarrow> (\<exists>l. occ1 v = Some l \<and> i \<in> set l)"
    by blast
  from Cons.IH [OF u]
  have m': "\<forall>v l. occ1 v = Some l \<longrightarrow> (\<exists>l'. occ' v = Some l' \<and> set l \<subseteq> set l')"
    and h': "\<forall>j v. j < length rest' \<and> current_vertex_idx (rest' ! j) = Some v
             \<longrightarrow> (\<exists>l. occ' v = Some l \<and> Suc i + j \<in> set l)"
    by blast+
  have 1: "\<forall>v l. occ v = Some l \<longrightarrow> (\<exists>l'. occ' v = Some l' \<and> set l \<subseteq> set l')"
    using m m' by (meson subset_trans)
  have 2: "\<forall>j v. j < length rs' \<and> current_vertex_idx (rs' ! j) = Some v
             \<longrightarrow> (\<exists>l. occ' v = Some l \<and> i + j \<in> set l)"
  proof (intro allI impI)
    fix j v assume a: "j < length rs' \<and> current_vertex_idx (rs' ! j) = Some v"
    show "\<exists>l. occ' v = Some l \<and> i + j \<in> set l"
    proof (cases j)
      case 0
      with a rs' h obtain l where "occ1 v = Some l" "i \<in> set l" by auto
      with m' 0 show ?thesis by fastforce
    next
      case (Suc j')
      with a rs' h' show ?thesis by auto
    qed
  qed
  from 1 2 show ?case by blast
qed

lemma update_table_ok:
  assumes u: "update g f = Some (Inr f')"
  shows "table_ok f'"
proof -
  from u obtain rs occ where
    a: "update_robots g 0 (robots f)
          (\<lambda>idx. if 0 \<le> idx \<and> idx < int (length (vertices g)) then Some [] else None)
        = Some (Inr (rs, occ))"
    and f': "f' = f\<lparr>robots := map (\<lambda>r. r\<lparr>log := []\<rparr>) (fst (reserve_lanes 0 rs Map.empty)),
                  occupied_vertices := occ,
                  occupied_lanes := snd (reserve_lanes 0 rs Map.empty),
                  logged := logged f @ concat (map log (fst (reserve_lanes 0 rs Map.empty)))\<rparr>"
    by (auto simp: update_Inr)
  let ?rs' = "fst (reserve_lanes 0 rs Map.empty)"
  have b: "list_all2 (\<lambda>r r'. r' = r \<or>
          (status r = MOVING \<and> current_lane r \<noteq> None \<and> r' = wait_at_lane r)) rs ?rs'"
    by (rule reserve_lanes_all2 [of 0 rs Map.empty _ "snd (reserve_lanes 0 rs Map.empty)"]) simp
  then have l: "length ?rs' = length rs" by (simp add: list_all2_lengthD)
  have cv: "\<And>j. j < length rs \<Longrightarrow> current_vertex_idx (?rs' ! j) = current_vertex_idx (rs ! j)"
  proof -
    fix j assume "j < length rs"
    with b have "?rs' ! j = rs ! j \<or> ?rs' ! j = wait_at_lane (rs ! j)"
      by (auto dest: list_all2_nthD)
    then show "current_vertex_idx (?rs' ! j) = current_vertex_idx (rs ! j)"
      by (auto simp: wait_at_lane_def)
  qed
  from update_robots_table [OF a]
  have t: "\<And>j v. j < length rs \<Longrightarrow> current_vertex_idx (rs ! j) = Some v
             \<Longrightarrow> \<exists>l. occ v = Some l \<and> j \<in> set l"
    by auto
  show ?thesis
    unfolding table_ok_iff using f' l cv t by auto
qed

lemma reachable_table: "reachable f \<Longrightarrow> table_ok f"
proof (induction rule: reachable.induct)
  case init
  show ?case by (simp add: table_ok_def init_fleet_def)
next
  case (spawn f g vertex_idx ok f')
  show ?case
  proof (cases ok)
    case False
    with spawn_robot_cases [OF spawn.hyps(2)] spawn.IH show ?thesis by simp
  next
    case True
    with spawn.hyps(2) have f': "f' = f\<lparr>robots := robots f @
        [(new_robot (robot_id_counter f) (vx (vertices g ! nat vertex_idx))
            (vy (vertices g ! nat vertex_idx)))\<lparr>current_vertex_idx := Some vertex_idx\<rparr>],
        robot_id_counter := robot_id_counter f + 1,
        occupied_vertices := (occupied_vertices f)(vertex_idx \<mapsto>
           (case occupied_vertices f vertex_idx of None \<Rightarrow> [] | Some l \<Rightarrow> l)
             @ [length (robots f)]),
        logged := logged f @ [SpawnedRobot (robot_id_counter f) vertex_idx
                     (name (vertices g ! nat vertex_idx))]\<rparr>"
      by (auto simp: spawn_robot_def Let_def new_robot_def
               split: if_splits sum.splits bool.splits)
    show ?thesis
      unfolding table_ok_iff
    proof (intro allI impI)
      fix i v assume a: "i < length (robots f') \<and> current_vertex_idx (robots f' ! i) = Some v"
      show "\<exists>l. occupied_vertices f' v = Some l \<and> i \<in> set l"
      proof (cases "i < length (robots f)")
        case True
        with a f' have "current_vertex_idx (robots f ! i) = Some v"
          by (simp add: nth_append)
        with spawn.IH True obtain l where "occupied_vertices f v = Some l" "i \<in> set l"
          by (auto simp: table_ok_iff)
        with f' show ?thesis by auto
      next
        case False
        with a f' have "i = length (robots f)" "v = vertex_idx"
          by (auto simp: nth_append new_robot_def)
        with f' show ?thesis by simp
      qed
    qed
  qed
next
  case (assign f g robot_id destination_idx ok f')
  from fleet_assign_task_cases [OF assign.hyps(2)]
  consider "f' = f"
    | i r where "find_robot robot_id (robots f) = Some i"
        "assign_task (robots f ! i) destination_idx g = Some (Inr (ok, r))"
        "f' = f\<lparr>robots := (robots f)[i := (if ok then r\<lparr>status := MOVING\<rparr> else r)]\<rparr>"
    by blast
  then show ?case
  proof cases
    case 1
    with assign.IH show ?thesis by simp
  next
    case 2
    from assign_task_current_vertex [OF 2(2)]
    have "current_vertex_idx (if ok then r\<lparr>status := MOVING\<rparr> else r)
        = current_vertex_idx (robots f ! i)"
      by simp
    then have "\<And>j. j < length (robots f) \<Longrightarrow>
        current_vertex_idx (robots f' ! j) = current_vertex_idx (robots f ! j)"
    proof -
      fix j assume j: "j < length (robots f)"
      assume e: "current_vertex_idx (if ok then r\<lparr>status := MOVING\<rparr> else r)
        = current_vertex_idx (robots f ! i)"
      show "current_vertex_idx (robots f' ! j) = current_vertex_idx (robots f ! j)"
      proof (cases "j = i")
        case True
        with j e 2(3) show ?thesis by simp
      next
        case False
        with j 2(3) show ?thesis by simp
      qed
    qed
    moreover have "length (robots f') = length (robots f)"
      "occupied_vertices f' = occupied_vertices f"
      using 2(3) by simp_all
    ultimately show ?thesis
      using assign.IH unfolding table_ok_iff by metis
  qed
next
  case (tick f g f')
  from update_table_ok [OF tick.hyps(2)] show ?case .
next
  case (reset f)
  show ?case by (simp add: table_ok_def reset_for_new_level_def)
qed

text \<open>
  Claim C2 as stated fails. On the line 0 - 1 - 2 robots are spawned at vertices 0 and 2
  and both are sent to vertex 1, which is free and not a charger. They travel on different
  lanes, so the lane arbitration never stops either, and after 20 ticks both have vertex 1
  as their current vertex.
\<close>

theorem two_robots_arrive_at_one_vertex:
  "\<not> is_charger (vertices line_graph ! 1)
   \<and> returns (run line_graph [Spawn 0, Spawn 2, Assign 1 1, Assign 2 1] init_fleet) (\<lambda>f.
       map current_vertex_idx (robots f) = [Some 0, Some 2])
   \<and> returns (run line_graph [Spawn 0, Spawn 2, Assign 1 1, Assign 2 1, Ticks 20] init_fleet) (\<lambda>f.
       map current_vertex_idx (robots f) = [Some 1, Some 1])"
  by code_simp

text \<open>
  Claim C2, as the code has it. In every state the manager can reach, the occupancy table
  lists each robot at its current vertex, so spawning at an in-range vertex that is not a
  charger and is the current vertex of some robot fails and leaves the fleet, hence every
  occupant count, unchanged; spawning at an in-range charger vertex always succeeds and
  adds one occupant, however many robots are there. (Ticks do not keep other vertices
  single-occupant.)
\<close>

theorem spawn_respects_occupancy:
  assumes "reachable f"
  shows "(\<forall>(g::nav_graph) v r. r \<in> set (robots f) \<and> current_vertex_idx r = Some v
            \<and> 0 \<le> v \<and> v < int (length (vertices g)) \<and> \<not> is_charger (vertices g ! nat v)
          \<longrightarrow> spawn_robot g f v = Inr (False, f))
       \<and> (\<forall>(g::nav_graph) v. 0 \<le> v \<and> v < int (length (vertices g)) \<and> is_charger (vertices g ! nat v)
          \<longrightarrow> (\<exists>f'. spawn_robot g f v = Inr (True, f')
                 \<and> occupant_count f' v = occupant_count f v + 1))"
proof (intro conjI allI impI)
  fix g :: nav_graph and v r
  assume a: "r \<in> set (robots f) \<and> current_vertex_idx r = Some v
            \<and> 0 \<le> v \<and> v < int (length (vertices g)) \<and> \<not> is_charger (vertices g ! nat v)"
  then obtain i where "i < length (robots f)" "robots f ! i = r"
    by (auto simp: in_set_conv_nth)
  with a reachable_table [OF assms] obtain l where "occupied_vertices f v = Some l" "i \<in> set l"
    by (auto simp: table_ok_iff)
  moreover from this have "l \<noteq> []" by auto
  ultimately show "spawn_robot g f v = Inr (False, f)"
    using a by (simp add: spawn_robot_def is_vertex_occupied_def py_get_def py_index_def)
next
  fix g :: nav_graph and v
  assume a: "0 \<le> v \<and> v < int (length (vertices g)) \<and> is_charger (vertices g ! nat v)"
  then have "is_vertex_occupied g f v = Inr False"
    by (simp add: is_vertex_occupied_def py_get_def py_index_def split: option.splits)
  with a show "\<exists>f'. spawn_robot g f v = Inr (True, f')
                 \<and> occupant_count f' v = occupant_count f v + 1"
    by (simp add: spawn_robot_def Let_def occupant_count_def new_robot_def)
qed

theorem spawn_respects_occupancy_witness:
  "reachable moving_fleet
   \<and> current_vertex_idx (hd (robots moving_fleet)) = Some 0
   \<and> \<not> is_charger (vertices line_graph ! 0)
   \<and> spawn_robot line_graph moving_fleet 0 = Inr (False, moving_fleet)
   \<and> is_charger (vertices charger_pair ! 1)
   \<and> (\<exists>f'. spawn_robot charger_pair moving_fleet 1 = Inr (True, f')
         \<and> occupant_count f' 1 = occupant_count moving_fleet 1 + 1)"
proof -
  have h: "hd (robots moving_fleet) \<in> set (robots moving_fleet)"
    "current_vertex_idx (hd (robots moving_fleet)) = Some 0"
    "(0::int) < int (length (vertices line_graph))"
    "\<not> is_charger (vertices line_graph ! 0)"
    "(1::int) < int (length (vertices charger_pair))"
    "is_charger (vertices charger_pair ! 1)"
    by (simp_all add: moving_fleet_eq new_robot_def line_graph_sel charger_pair_def)
  from spawn_respects_occupancy [OF reachable_moving] h
  have "spawn_robot line_graph moving_fleet 0 = Inr (False, moving_fleet)"
    by fastforce
  moreover from spawn_respects_occupancy [OF reachable_moving] h
  have "\<exists>f'. spawn_robot charger_pair moving_fleet 1 = Inr (True, f')
         \<and> occupant_count f' 1 = occupant_count moving_fleet 1 + 1"
    by fastforce
  ultimately show ?thesis using reachable_moving h by blast
qed

section \<open>Lane arbitration (claim C1)\<close>

lemma first_claim_iff:
  "first_claim tbl rs j k \<longleftrightarrow> (tbl k = None \<and> (\<forall>m<j. lane_of (rs ! m) \<noteq> Some k))"
  by (auto simp: first_claim_def list_all_iff)

lemma all_less_Suc_split: "(\<forall>m<Suc j. P m) \<longleftrightarrow> (P 0 \<and> (\<forall>m<j. P (Suc m)))"
  by (auto simp: less_Suc_eq_0_disj)

lemma first_claim_Suc:
  "first_claim tbl (r # rest) (Suc j) k
   \<longleftrightarrow> (lane_of r \<noteq> Some k \<and> first_claim tbl rest j k)"
  by (auto simp: first_claim_iff all_less_Suc_split)

lemma first_claim_upd:
  "first_claim (tbl(k0 \<mapsto> i)) rest j k \<longleftrightarrow> (k \<noteq> k0 \<and> first_claim tbl rest j k)"
  by (auto simp: first_claim_iff)

lemma reserve_lanes_Cons:
  "reserve_lanes i (r # rest) tbl =
     (case lane_of r of
        None \<Rightarrow> (r # fst (reserve_lanes (Suc i) rest tbl), snd (reserve_lanes (Suc i) rest tbl))
      | Some k \<Rightarrow>
          if tbl k \<noteq> None \<and> tbl k \<noteq> Some i
          then (wait_at_lane r # fst (reserve_lanes (Suc i) rest tbl),
                snd (reserve_lanes (Suc i) rest tbl))
          else (r # fst (reserve_lanes (Suc i) rest (tbl(k \<mapsto> i))),
                snd (reserve_lanes (Suc i) rest (tbl(k \<mapsto> i)))))"
  by (auto simp: lane_of_def wait_at_lane_def Let_def split: prod.splits option.splits)

lemma reserve_lanes_length: "length (fst (reserve_lanes i rs tbl)) = length rs"
  by (induction rs arbitrary: i tbl)
     (simp_all add: reserve_lanes_Cons split: option.splits del: reserve_lanes.simps(2))

lemma reserve_lanes_step:
  assumes "\<forall>k v. tbl k = Some v \<longrightarrow> v < i"
  shows "\<exists>T x. reserve_lanes i (r # rest) tbl
        = (x # fst (reserve_lanes (Suc i) rest T), snd (reserve_lanes (Suc i) rest T))
     \<and> (\<forall>k v. T k = Some v \<longrightarrow> v < Suc i)
     \<and> (\<forall>k. tbl k \<noteq> None \<longrightarrow> T k = tbl k)
     \<and> (\<forall>k. T k = None \<longleftrightarrow> tbl k = None \<and> lane_of r \<noteq> Some k)
     \<and> (\<forall>k. lane_of r = Some k \<and> tbl k = None \<longrightarrow> T k = Some i)
     \<and> x = (case lane_of r of
              None \<Rightarrow> r
            | Some k \<Rightarrow> if tbl k = None then r else wait_at_lane r)"
proof (cases "lane_of r")
  case None
  show ?thesis
    using assms
    by (intro exI [of _ tbl] exI [of _ r])
       (auto simp: reserve_lanes_Cons None intro: less_SucI simp del: reserve_lanes.simps(2))
next
  case (Some k0)
  show ?thesis
  proof (cases "tbl k0 = None")
    case True
    show ?thesis
      using assms True
      by (intro exI [of _ "tbl(k0 \<mapsto> i)"] exI [of _ r])
         (auto simp: reserve_lanes_Cons Some intro: less_SucI simp del: reserve_lanes.simps(2))
  next
    case False
    then obtain v where v: "tbl k0 = Some v" by auto
    with assms have "v < i" by blast
    with v have ne: "tbl k0 \<noteq> Some i" by auto
    show ?thesis
      using assms False ne
      by (intro exI [of _ tbl] exI [of _ "wait_at_lane r"])
         (auto simp: reserve_lanes_Cons Some intro: less_SucI simp del: reserve_lanes.simps(2))
  qed
qed

lemma reserve_lanes_spec:
  assumes "\<forall>k v. tbl k = Some v \<longrightarrow> v < i"
  shows "(\<forall>k v. snd (reserve_lanes i rs tbl) k = Some v \<longrightarrow> v < i + length rs)
     \<and> (\<forall>k. tbl k \<noteq> None \<longrightarrow> snd (reserve_lanes i rs tbl) k = tbl k)
     \<and> (\<forall>j<length rs. fst (reserve_lanes i rs tbl) ! j =
           (case lane_of (rs ! j) of
              None \<Rightarrow> rs ! j
            | Some k \<Rightarrow> if first_claim tbl rs j k then rs ! j else wait_at_lane (rs ! j)))
     \<and> (\<forall>j<length rs. \<forall>k. lane_of (rs ! j) = Some k \<and> first_claim tbl rs j k
           \<longrightarrow> snd (reserve_lanes i rs tbl) k = Some (i + j))"
  using assms
proof (induction rs arbitrary: i tbl)
  case Nil
  then show ?case by simp
next
  case (Cons r rest)
  from reserve_lanes_step [OF Cons.prems, of r rest] obtain T x where
    eq: "reserve_lanes i (r # rest) tbl
        = (x # fst (reserve_lanes (Suc i) rest T), snd (reserve_lanes (Suc i) rest T))"
    and bT: "\<forall>k v. T k = Some v \<longrightarrow> v < Suc i"
    and keepT: "\<forall>k. tbl k \<noteq> None \<longrightarrow> T k = tbl k"
    and noneT: "\<forall>k. T k = None \<longleftrightarrow> tbl k = None \<and> lane_of r \<noteq> Some k"
    and claimT: "\<forall>k. lane_of r = Some k \<and> tbl k = None \<longrightarrow> T k = Some i"
    and x: "x = (case lane_of r of
              None \<Rightarrow> r
            | Some k \<Rightarrow> if tbl k = None then r else wait_at_lane r)"
    by blast
  from Cons.IH [OF bT]
  have IH1: "\<forall>k v. snd (reserve_lanes (Suc i) rest T) k = Some v \<longrightarrow> v < Suc i + length rest"
    and IH2: "\<forall>k. T k \<noteq> None \<longrightarrow> snd (reserve_lanes (Suc i) rest T) k = T k"
    and IH3: "\<forall>j<length rest. fst (reserve_lanes (Suc i) rest T) ! j =
           (case lane_of (rest ! j) of
              None \<Rightarrow> rest ! j
            | Some k \<Rightarrow> if first_claim T rest j k then rest ! j else wait_at_lane (rest ! j))"
    and IH4: "\<forall>j<length rest. \<forall>k. lane_of (rest ! j) = Some k \<and> first_claim T rest j k
           \<longrightarrow> snd (reserve_lanes (Suc i) rest T) k = Some (Suc i + j)"
    by blast+
  have fc: "\<And>j k. first_claim tbl (r # rest) (Suc j) k = first_claim T rest j k"
    using noneT by (auto simp: first_claim_iff all_less_Suc_split)
  have f0: "\<And>k. first_claim tbl (r # rest) 0 k = (tbl k = None)"
    by (simp add: first_claim_iff)
  have A: "\<forall>k v. snd (reserve_lanes (Suc i) rest T) k = Some v \<longrightarrow> v < i + length (r # rest)"
    using IH1 by simp
  have B: "\<forall>k. tbl k \<noteq> None \<longrightarrow> snd (reserve_lanes (Suc i) rest T) k = tbl k"
    using IH2 keepT by metis
  have C: "\<forall>j<length (r # rest).
          (x # fst (reserve_lanes (Suc i) rest T)) ! j =
           (case lane_of ((r # rest) ! j) of
              None \<Rightarrow> (r # rest) ! j
            | Some k \<Rightarrow> if first_claim tbl (r # rest) j k then (r # rest) ! j
                        else wait_at_lane ((r # rest) ! j))"
  proof (intro allI impI)
    fix j assume j: "j < length (r # rest)"
    show "(x # fst (reserve_lanes (Suc i) rest T)) ! j =
           (case lane_of ((r # rest) ! j) of
              None \<Rightarrow> (r # rest) ! j
            | Some k \<Rightarrow> if first_claim tbl (r # rest) j k then (r # rest) ! j
                        else wait_at_lane ((r # rest) ! j))"
    proof (cases j)
      case 0
      then show ?thesis by (simp add: x f0 split: option.splits)
    next
      case (Suc j')
      with j IH3 show ?thesis by (simp add: fc split: option.splits)
    qed
  qed
  have D: "\<forall>j<length (r # rest). \<forall>k.
          lane_of ((r # rest) ! j) = Some k \<and> first_claim tbl (r # rest) j k
           \<longrightarrow> snd (reserve_lanes (Suc i) rest T) k = Some (i + j)"
  proof (intro allI impI)
    fix j k assume j: "j < length (r # rest)"
      and h: "lane_of ((r # rest) ! j) = Some k \<and> first_claim tbl (r # rest) j k"
    show "snd (reserve_lanes (Suc i) rest T) k = Some (i + j)"
    proof (cases j)
      case 0
      with h have "lane_of r = Some k \<and> tbl k = None" by (simp add: f0)
      with claimT have t: "T k = Some i" by blast
      then have "T k \<noteq> None" by simp
      with IH2 have "snd (reserve_lanes (Suc i) rest T) k = T k" by blast
      with t 0 show ?thesis by simp
    next
      case (Suc j')
      with j h have "j' < length rest" "lane_of (rest ! j') = Some k \<and> first_claim T rest j' k"
        by (simp_all add: fc)
      with IH4 have "snd (reserve_lanes (Suc i) rest T) k = Some (Suc i + j')" by blast
      with Suc show ?thesis by simp
    qed
  qed
  show ?case
    unfolding eq fst_conv snd_conv using A B C D by blast
qed


lemma lane_of_clear_log: "lane_of (r\<lparr>log := []\<rparr>) = lane_of r"
  by (simp add: lane_of_def)

lemma lane_of_wait: "lane_of (wait_at_lane r) = None"
  by (simp add: lane_of_def wait_at_lane_def)

lemma lane_of_Some_moving: "lane_of r = Some k \<Longrightarrow> status r = MOVING"
  by (simp add: lane_of_def split: if_splits)

lemma moved_robots_rid:
  assumes "update g f = Some (Inr f')"
  shows "length (moved_robots g f) = length (robots f)
     \<and> (\<forall>j<length (robots f). rid (moved_robots g f ! j) = rid (robots f ! j))"
proof -
  from assms obtain rs occ where
    a: "update_robots g 0 (robots f)
          (\<lambda>idx. if 0 \<le> idx \<and> idx < int (length (vertices g)) then Some [] else None)
        = Some (Inr (rs, occ))"
    by (auto simp: update_Inr)
  then have m: "moved_robots g f = rs" by (simp add: moved_robots_def)
  have "list_all2 (\<lambda>r r'. rid r' = rid r) (robots f) rs"
    by (rule list_all2_mono [OF update_robots_all2 [OF a]])
       (auto dest: update_robot_battery)
  then show ?thesis
    unfolding m by (auto simp: list_all2_conv_all_nth)
qed

text \<open>
  Claim C1. After a tick that completes, no two robots with status \<open>MOVING\<close> hold the same
  lane key, and the lane table names the one robot that holds it. Among the robots that,
  after the first loop of the tick, are \<open>MOVING\<close> on a lane with the same key, the second
  loop lets the one with the lowest id keep the lane (it stays \<open>MOVING\<close>, unchanged, and is
  recorded in the lane table) and sets every other one to \<open>WAITING\<close>; this holds in every
  state the manager can reach, where ids increase along the list of robots.
\<close>

theorem lane_arbitration:
  assumes "update g f = Some (Inr f')"
  shows "(\<forall>i j k. i < length (robots f') \<and> j < length (robots f')
            \<and> lane_of (robots f' ! i) = Some k \<and> lane_of (robots f' ! j) = Some k
          \<longrightarrow> i = j)
     \<and> (\<forall>i k. i < length (robots f') \<and> lane_of (robots f' ! i) = Some k
          \<longrightarrow> occupied_lanes f' k = Some i)
     \<and> length (moved_robots g f) = length (robots f')
     \<and> (reachable f \<longrightarrow>
          (\<forall>j k. j < length (moved_robots g f) \<and> lane_of (moved_robots g f ! j) = Some k
             \<longrightarrow> (if \<exists>m<length (moved_robots g f).
                        lane_of (moved_robots g f ! m) = Some k
                        \<and> rid (moved_robots g f ! m) < rid (moved_robots g f ! j)
                   then status (robots f' ! j) = WAITING
                   else status (robots f' ! j) = MOVING
                        \<and> occupied_lanes f' k = Some j
                        \<and> robots f' ! j = (moved_robots g f ! j)\<lparr>log := []\<rparr>)))"
proof -
  from assms obtain rs occ where
    a: "update_robots g 0 (robots f)
          (\<lambda>idx. if 0 \<le> idx \<and> idx < int (length (vertices g)) then Some [] else None)
        = Some (Inr (rs, occ))"
    and f': "f' = f\<lparr>robots := map (\<lambda>r. r\<lparr>log := []\<rparr>) (fst (reserve_lanes 0 rs Map.empty)),
                  occupied_vertices := occ,
                  occupied_lanes := snd (reserve_lanes 0 rs Map.empty),
                  logged := logged f @ concat (map log (fst (reserve_lanes 0 rs Map.empty)))\<rparr>"
    by (auto simp: update_Inr)
  let ?rs' = "fst (reserve_lanes 0 rs Map.empty)"
  let ?tbl = "snd (reserve_lanes 0 rs Map.empty)"
  have m: "moved_robots g f = rs" using a by (simp add: moved_robots_def)
  have l: "length ?rs' = length rs" by (rule reserve_lanes_length)
  have lf: "length (robots f') = length rs" using f' l by simp
  have tb: "occupied_lanes f' = ?tbl" using f' by simp
  have nth': "\<And>j. j < length rs \<Longrightarrow> robots f' ! j = (?rs' ! j)\<lparr>log := []\<rparr>"
    using f' l by simp
  have e: "\<forall>k v. (Map.empty :: (int \<times> int) \<rightharpoonup> nat) k = Some v \<longrightarrow> v < 0" by simp
  from reserve_lanes_spec [OF e, of rs]
  have C: "\<forall>j<length rs. ?rs' ! j =
           (case lane_of (rs ! j) of
              None \<Rightarrow> rs ! j
            | Some k \<Rightarrow> if first_claim Map.empty rs j k then rs ! j else wait_at_lane (rs ! j))"
    and D: "\<forall>j<length rs. \<forall>k. lane_of (rs ! j) = Some k \<and> first_claim Map.empty rs j k
           \<longrightarrow> ?tbl k = Some (0 + j)"
    by blast+
  have win: "\<And>j k. j < length rs \<Longrightarrow> lane_of (rs ! j) = Some k
      \<Longrightarrow> first_claim Map.empty rs j k
      \<Longrightarrow> robots f' ! j = (rs ! j)\<lparr>log := []\<rparr> \<and> occupied_lanes f' k = Some j"
  proof -
    fix j k assume j: "j < length rs" and k: "lane_of (rs ! j) = Some k"
      and fc: "first_claim Map.empty rs j k"
    from C j k fc have "?rs' ! j = rs ! j" by simp
    moreover from D j k fc have "?tbl k = Some (0 + j)" by blast
    ultimately show "robots f' ! j = (rs ! j)\<lparr>log := []\<rparr> \<and> occupied_lanes f' k = Some j"
      using nth' [OF j] tb by simp
  qed
  have lose: "\<And>j k. j < length rs \<Longrightarrow> lane_of (rs ! j) = Some k
      \<Longrightarrow> \<not> first_claim Map.empty rs j k
      \<Longrightarrow> robots f' ! j = (wait_at_lane (rs ! j))\<lparr>log := []\<rparr>"
  proof -
    fix j k assume j: "j < length rs" and k: "lane_of (rs ! j) = Some k"
      and fc: "\<not> first_claim Map.empty rs j k"
    from C j k fc have "?rs' ! j = wait_at_lane (rs ! j)" by simp
    then show "robots f' ! j = (wait_at_lane (rs ! j))\<lparr>log := []\<rparr>"
      using nth' [OF j] by simp
  qed
  have idle: "\<And>j. j < length rs \<Longrightarrow> lane_of (rs ! j) = None
      \<Longrightarrow> robots f' ! j = (rs ! j)\<lparr>log := []\<rparr>"
  proof -
    fix j assume j: "j < length rs" and k: "lane_of (rs ! j) = None"
    from C j k have "?rs' ! j = rs ! j" by simp
    then show "robots f' ! j = (rs ! j)\<lparr>log := []\<rparr>"
      using nth' [OF j] by simp
  qed
  have holder: "\<And>i k. i < length rs \<Longrightarrow> lane_of (robots f' ! i) = Some k
      \<Longrightarrow> occupied_lanes f' k = Some i"
  proof -
    fix i k assume i: "i < length rs" and k: "lane_of (robots f' ! i) = Some k"
    show "occupied_lanes f' k = Some i"
    proof (cases "lane_of (rs ! i)")
      case None
      from idle [OF i None] k None show ?thesis by (simp add: lane_of_clear_log)
    next
      case (Some k')
      show ?thesis
      proof (cases "first_claim Map.empty rs i k'")
        case True
        from win [OF i Some True] k Some show ?thesis by (simp add: lane_of_clear_log)
      next
        case False
        from lose [OF i Some False] k show ?thesis
          by (simp add: lane_of_clear_log lane_of_wait)
      qed
    qed
  qed
  have 1: "\<forall>i j k. i < length (robots f') \<and> j < length (robots f')
            \<and> lane_of (robots f' ! i) = Some k \<and> lane_of (robots f' ! j) = Some k
          \<longrightarrow> i = j"
  proof (intro allI impI)
    fix i j k
    assume h: "i < length (robots f') \<and> j < length (robots f')
            \<and> lane_of (robots f' ! i) = Some k \<and> lane_of (robots f' ! j) = Some k"
    then have "occupied_lanes f' k = Some i" "occupied_lanes f' k = Some j"
      using holder lf by simp_all
    then show "i = j" by simp
  qed
  have 2: "\<forall>i k. i < length (robots f') \<and> lane_of (robots f' ! i) = Some k
          \<longrightarrow> occupied_lanes f' k = Some i"
    using holder lf by simp
  have 4: "reachable f \<longrightarrow>
          (\<forall>j k. j < length rs \<and> lane_of (rs ! j) = Some k
             \<longrightarrow> (if \<exists>m<length rs. lane_of (rs ! m) = Some k \<and> rid (rs ! m) < rid (rs ! j)
                   then status (robots f' ! j) = WAITING
                   else status (robots f' ! j) = MOVING
                        \<and> occupied_lanes f' k = Some j
                        \<and> robots f' ! j = (rs ! j)\<lparr>log := []\<rparr>))"
  proof (intro allI impI)
    fix j k
    assume r: "reachable f" and h: "j < length rs \<and> lane_of (rs ! j) = Some k"
    from moved_robots_rid [OF assms] m
    have len: "length rs = length (robots f)"
      and rid: "\<And>i. i < length rs \<Longrightarrow> rid (rs ! i) = rid (robots f ! i)"
      by simp_all
    from reachable_ids [OF r]
    have ids: "\<And>i. i < length rs \<Longrightarrow> rid (rs ! i) = int i + 1"
      using len rid by (simp add: ids_ok_def list_all_iff)
    have iff: "(\<exists>m<length rs. lane_of (rs ! m) = Some k \<and> rid (rs ! m) < rid (rs ! j))
        \<longleftrightarrow> \<not> first_claim Map.empty rs j k"
    proof
      assume "\<exists>m<length rs. lane_of (rs ! m) = Some k \<and> rid (rs ! m) < rid (rs ! j)"
      then obtain m where "m < length rs" "lane_of (rs ! m) = Some k"
        "rid (rs ! m) < rid (rs ! j)"
        by blast
      with h ids have "m < j" "lane_of (rs ! m) = Some k" by simp_all
      then show "\<not> first_claim Map.empty rs j k"
        by (auto simp: first_claim_iff)
    next
      assume "\<not> first_claim Map.empty rs j k"
      then obtain m where mj: "m < j" and lm: "lane_of (rs ! m) = Some k"
        by (auto simp: first_claim_iff)
      with h have "m < length rs" by simp
      with mj lm h ids show "\<exists>m<length rs. lane_of (rs ! m) = Some k \<and> rid (rs ! m) < rid (rs ! j)"
        by (intro exI [of _ m]) simp
    qed
    from h have j: "j < length rs" and k: "lane_of (rs ! j) = Some k" by simp_all
    show "if \<exists>m<length rs. lane_of (rs ! m) = Some k \<and> rid (rs ! m) < rid (rs ! j)
                   then status (robots f' ! j) = WAITING
                   else status (robots f' ! j) = MOVING
                        \<and> occupied_lanes f' k = Some j
                        \<and> robots f' ! j = (rs ! j)\<lparr>log := []\<rparr>"
    proof (cases "first_claim Map.empty rs j k")
      case True
      with iff have ne: "\<not> (\<exists>m<length rs. lane_of (rs ! m) = Some k \<and> rid (rs ! m) < rid (rs ! j))"
        by simp
      from win [OF j k True]
      have e: "robots f' ! j = (rs ! j)\<lparr>log := []\<rparr>" and o: "occupied_lanes f' k = Some j"
        by simp_all
      from lane_of_Some_moving [OF k] have "status ((rs ! j)\<lparr>log := []\<rparr>) = MOVING" by simp
      with e have "status (robots f' ! j) = MOVING" by simp
      with e o show ?thesis unfolding if_not_P [OF ne] by blast
    next
      case False
      with iff have ex: "\<exists>m<length rs. lane_of (rs ! m) = Some k \<and> rid (rs ! m) < rid (rs ! j)"
        by simp
      from lose [OF j k False] have "status (robots f' ! j) = WAITING"
        by (simp add: wait_at_lane_def)
      then show ?thesis unfolding if_P [OF ex] .
    qed
  qed
  from 1 2 4 lf show ?thesis unfolding m by simp
qed

theorem lane_arbitration_witness:
  "\<exists>f f'. reachable f \<and> update charger_pair f = Some (Inr f')
       \<and> lane_of (moved_robots charger_pair f ! 0) = Some (0, 1)
       \<and> lane_of (moved_robots charger_pair f ! 1) = Some (0, 1)
       \<and> rid (moved_robots charger_pair f ! 0) < rid (moved_robots charger_pair f ! 1)
       \<and> status (robots f' ! 0) = MOVING
       \<and> status (robots f' ! 1) = WAITING
       \<and> occupied_lanes f' (0, 1) = Some 0"
proof -
  have "returns (run charger_pair [Spawn 0, Spawn 1, Assign 1 1, Assign 2 0] init_fleet) (\<lambda>f.
      returns (update charger_pair f) (\<lambda>f'.
        length (moved_robots charger_pair f) = 2
        \<and> lane_of (moved_robots charger_pair f ! 0) = Some (0, 1)
        \<and> lane_of (moved_robots charger_pair f ! 1) = Some (0, 1)
        \<and> rid (moved_robots charger_pair f ! 0) = 1
        \<and> rid (moved_robots charger_pair f ! 1) = 2))"
    by code_simp
  then obtain f f' where
    r: "run charger_pair [Spawn 0, Spawn 1, Assign 1 1, Assign 2 0] init_fleet = Some (Inr f)"
    and u: "update charger_pair f = Some (Inr f')"
    and len: "length (moved_robots charger_pair f) = 2"
    and l0: "lane_of (moved_robots charger_pair f ! 0) = Some (0, 1)"
    and l1: "lane_of (moved_robots charger_pair f ! 1) = Some (0, 1)"
    and i0: "rid (moved_robots charger_pair f ! 0) = 1"
    and i1: "rid (moved_robots charger_pair f ! 1) = 2"
    by (auto simp: returns_iff)
  have re: "reachable f"
    by (rule run_reachable [OF reachable.init r])
  from lane_arbitration [OF u] re
  have w: "\<And>j k. j < length (moved_robots charger_pair f)
      \<Longrightarrow> lane_of (moved_robots charger_pair f ! j) = Some k
      \<Longrightarrow> (if \<exists>m<length (moved_robots charger_pair f).
                        lane_of (moved_robots charger_pair f ! m) = Some k
                        \<and> rid (moved_robots charger_pair f ! m) < rid (moved_robots charger_pair f ! j)
                   then status (robots f' ! j) = WAITING
                   else status (robots f' ! j) = MOVING
                        \<and> occupied_lanes f' k = Some j
                        \<and> robots f' ! j = (moved_robots charger_pair f ! j)\<lparr>log := []\<rparr>)"
    by blast
  have ex1: "\<exists>m<length (moved_robots charger_pair f).
      lane_of (moved_robots charger_pair f ! m) = Some (0, 1)
      \<and> rid (moved_robots charger_pair f ! m) < rid (moved_robots charger_pair f ! 1)"
    using len l0 i0 i1 by (intro exI [of _ 0]) simp
  have ex0: "\<not> (\<exists>m<length (moved_robots charger_pair f).
      lane_of (moved_robots charger_pair f ! m) = Some (0, 1)
      \<and> rid (moved_robots charger_pair f ! m) < rid (moved_robots charger_pair f ! 0))"
  proof
    assume "\<exists>m<length (moved_robots charger_pair f).
      lane_of (moved_robots charger_pair f ! m) = Some (0, 1)
      \<and> rid (moved_robots charger_pair f ! m) < rid (moved_robots charger_pair f ! 0)"
    then obtain m where "m < 2" "rid (moved_robots charger_pair f ! m) < 1"
      using len i0 by auto
    moreover from this have "m = 0 \<or> m = 1" by arith
    ultimately show False using i0 i1 by auto
  qed
  have j: "0 < length (moved_robots charger_pair f)" "1 < length (moved_robots charger_pair f)"
    using len by simp_all
  from w [OF j(2) l1] have s1: "status (robots f' ! 1) = WAITING"
    unfolding if_P [OF ex1] .
  from w [OF j(1) l0]
  have s0: "status (robots f' ! 0) = MOVING \<and> occupied_lanes f' (0, 1) = Some 0"
    unfolding if_not_P [OF ex0] by blast
  from re u l0 l1 i0 i1 s0 s1 show ?thesis by (intro exI [of _ f] exI [of _ f']) simp
qed


end
